theory Spec2Isabelle
  imports Main
begin

section \<open>JSON values\<close>

text \<open>
  The viewer works on what \<^verbatim>\<open>JSON.parse\<close> returns. A JavaScript string is modelled
  by an Isabelle \<^typ>\<open>string\<close>, one \<^typ>\<open>char\<close> for each code unit below 256.
  A JavaScript number is an IEEE double; a finite one is represented by the decimal
  \<open>m * 10 ^ e\<close> that \<^verbatim>\<open>Number.prototype.toString\<close> prints for it, as \<open>Finite m e\<close>
  with \<open>m\<close> not divisible by 10 (and \<open>e = 0\<close> when \<open>m = 0\<close>).
  An object is the list of its own properties in the order in which JavaScript
  enumerates them; its keys are pairwise distinct (\<open>wellformed\<close> below).
\<close>

datatype number = Finite int int | PosInfinity | NegInfinity | NaN

datatype JsonValue =
    JNull
  | JBoolean bool
  | JNumber number
  | JString string
  | JArray "JsonValue list"
  | JObject "(string \<times> JsonValue) list"

datatype JsonType = TObject | TArray | TString | TNumber | TBoolean | TNull

text \<open>
  \<^verbatim>\<open>value === null ? 'null' : typeof value === 'object' ?
     (Array.isArray(value) ? 'array' : 'object') : typeof value\<close>
\<close>

fun typeOf :: "JsonValue \<Rightarrow> JsonType" where
  "typeOf JNull = TNull"
| "typeOf (JBoolean b) = TBoolean"
| "typeOf (JNumber n) = TNumber"
| "typeOf (JString s) = TString"
| "typeOf (JArray xs) = TArray"
| "typeOf (JObject kvs) = TObject"

text \<open>JavaScript truthiness, as \<^verbatim>\<open>if (parsedJson)\<close> and \<^verbatim>\<open>obj && ...\<close> test it.\<close>

fun truthy :: "JsonValue \<Rightarrow> bool" where
  "truthy JNull = False"
| "truthy (JBoolean b) = b"
| "truthy (JNumber (Finite m e)) = (m \<noteq> 0)"
| "truthy (JNumber PosInfinity) = True"
| "truthy (JNumber NegInfinity) = True"
| "truthy (JNumber NaN) = False"
| "truthy (JString s) = (s \<noteq> [])"
| "truthy (JArray xs) = True"
| "truthy (JObject kvs) = True"

text \<open>
  The decimal digits of a natural number: how JavaScript writes an integer, an exponent
  and the name of an array index.
\<close>

definition digit_char :: "nat \<Rightarrow> char" where
  "digit_char d = ''0123456789'' ! d"

fun string_of_nat :: "nat \<Rightarrow> string" where
  "string_of_nat n =
     (if n < 10 then [digit_char n]
      else string_of_nat (n div 10) @ [digit_char (n mod 10)])"

declare string_of_nat.simps [simp del]

definition digit_val :: "char \<Rightarrow> nat" where
  "digit_val c = of_char c - 48"

section \<open>Serialization: \<^verbatim>\<open>JSON.stringify\<close>\<close>

text \<open>
  \<^verbatim>\<open>Number.prototype.toString\<close> (ECMA-262, Number::toString, radix 10): with \<open>s\<close> the
  digits of the number without trailing zeros, \<open>k\<close> their count and \<open>n\<close> the position of
  the decimal point, the five layouts of the standard.
\<close>

fun strip10 :: "nat \<Rightarrow> int \<Rightarrow> nat \<times> int" where
  "strip10 m e = (if m \<noteq> 0 \<and> m mod 10 = 0 then strip10 (m div 10) (e + 1) else (m, e))"

declare strip10.simps [simp del]

definition decimal_format :: "string \<Rightarrow> int \<Rightarrow> string" where
  "decimal_format ds n =
     (let k = int (length ds) in
      if k \<le> n \<and> n \<le> 21 then ds @ replicate (nat (n - k)) CHR ''0''
      else if 0 < n \<and> n \<le> 21 then take (nat n) ds @ ''.'' @ drop (nat n) ds
      else if -6 < n \<and> n \<le> 0 then ''0.'' @ replicate (nat (- n)) CHR ''0'' @ ds
      else
        (let ex = (if n - 1 < 0 then ''-'' else ''+'') @ string_of_nat (nat \<bar>n - 1\<bar>) in
         if k = 1 then ds @ ''e'' @ ex
         else take 1 ds @ ''.'' @ drop 1 ds @ ''e'' @ ex))"

fun Number_toString :: "number \<Rightarrow> string" where
  "Number_toString NaN = ''NaN''"
| "Number_toString PosInfinity = ''Infinity''"
| "Number_toString NegInfinity = ''-Infinity''"
| "Number_toString (Finite m e) =
     (if m = 0 then ''0''
      else
        (let (s, e') = strip10 (nat \<bar>m\<bar>) e
         in (if m < 0 then ''-'' else '''') @
            decimal_format (string_of_nat s) (int (length (string_of_nat s)) + e')))"

fun isFinite :: "number \<Rightarrow> bool" where
  "isFinite (Finite m e) = True"
| "isFinite n = False"

text \<open>
  \<^verbatim>\<open>QuoteJSONString\<close> (ECMA-262): the two-character escapes, \<^verbatim>\<open>\u00XX\<close> for the
  other control characters, every other character as it is.
\<close>

definition hex_char :: "nat \<Rightarrow> char" where
  "hex_char d = ''0123456789abcdef'' ! d"

definition QuoteJSONChar :: "char \<Rightarrow> string" where
  "QuoteJSONChar c =
     (if c = CHR 0x08 then [CHR 0x5C, CHR ''b'']
      else if c = CHR 0x09 then [CHR 0x5C, CHR ''t'']
      else if c = CHR 0x0A then [CHR 0x5C, CHR ''n'']
      else if c = CHR 0x0C then [CHR 0x5C, CHR ''f'']
      else if c = CHR 0x0D then [CHR 0x5C, CHR ''r'']
      else if c = CHR 0x22 then [CHR 0x5C, CHR 0x22]
      else if c = CHR 0x5C then [CHR 0x5C, CHR 0x5C]
      else if (of_char c :: nat) < 0x20
        then [CHR 0x5C, CHR ''u'', CHR ''0'', CHR ''0'',
              hex_char (of_char c div 16), hex_char (of_char c mod 16)]
      else [c])"

definition QuoteJSONString :: "string \<Rightarrow> string" where
  "QuoteJSONString s = [CHR 0x22] @ concat (map QuoteJSONChar s) @ [CHR 0x22]"

fun join :: "string \<Rightarrow> string list \<Rightarrow> string" where
  "join sep [] = []"
| "join sep [x] = x"
| "join sep (x # y # ys) = x @ sep @ join sep (y # ys)"

text \<open>
  \<^verbatim>\<open>SerializeJSONProperty\<close>, \<^verbatim>\<open>SerializeJSONArray\<close> and \<^verbatim>\<open>SerializeJSONObject\<close>
  (ECMA-262) with the standard's \<open>gap\<close> and \<open>indent\<close>: an empty container is the two
  brackets; with an empty gap the members are joined by commas; otherwise each member
  stands on a line of its own, one gap deeper, and the closing bracket at the indent of
  the container. A number that is not finite is written \<^verbatim>\<open>null\<close>.
\<close>

definition wrap :: "string \<Rightarrow> string \<Rightarrow> string \<Rightarrow> string \<Rightarrow> string list \<Rightarrow> string" where
  "wrap opening closing gap stepback partial =
     (if partial = [] then opening @ closing
      else if gap = [] then opening @ join '','' partial @ closing
      else opening @ [CHR 0x0A] @ (stepback @ gap)
             @ join ('','' @ [CHR 0x0A] @ (stepback @ gap)) partial
             @ [CHR 0x0A] @ stepback @ closing)"

fun SerializeJSONProperty :: "string \<Rightarrow> string \<Rightarrow> JsonValue \<Rightarrow> string" where
  "SerializeJSONProperty gap indent JNull = ''null''"
| "SerializeJSONProperty gap indent (JBoolean b) = (if b then ''true'' else ''false'')"
| "SerializeJSONProperty gap indent (JString s) = QuoteJSONString s"
| "SerializeJSONProperty gap indent (JNumber n) =
     (if isFinite n then Number_toString n else ''null'')"
| "SerializeJSONProperty gap indent (JArray xs) =
     wrap ''['' '']'' gap indent
       (map (\<lambda>v. SerializeJSONProperty gap (indent @ gap) v) xs)"
| "SerializeJSONProperty gap indent (JObject kvs) =
     wrap ''{'' ''}'' gap indent
       (map (\<lambda>(k, v). QuoteJSONString k @ '':'' @ (if gap = [] then [] else '' '')
                          @ SerializeJSONProperty gap (indent @ gap) v) kvs)"

text \<open>\<^verbatim>\<open>JSON.stringify(v, null, space)\<close>; \<^verbatim>\<open>JSON.stringify(v)\<close> is \<open>space = 0\<close>.\<close>

definition JSON_stringify :: "JsonValue \<Rightarrow> nat \<Rightarrow> string" where
  "JSON_stringify v space = SerializeJSONProperty (replicate (min space 10) CHR '' '') [] v"


section \<open>The formatted view: \<^verbatim>\<open>renderSyntaxHighlightedJson\<close>\<close>

text \<open>
  What a component renders: elements with their tag, class name, left padding (when a
  style sets one) and children; text; line breaks; icons. \<open>innerText\<close> is the text the
  browser shows for it, a line break being a newline.
\<close>

datatype ReactNode =
    Element string string "nat option" "ReactNode list"
  | Text string
  | Br
  | Icon string

definition span :: "string \<Rightarrow> ReactNode list \<Rightarrow> ReactNode" where
  "span className children = Element ''span'' className None children"

fun innerText :: "ReactNode \<Rightarrow> string" where
  "innerText (Element tag className style children) = concat (map innerText children)"
| "innerText (Text s) = s"
| "innerText Br = ''\<newline>''"
| "innerText (Icon name) = []"

lemma enumerate_size:
  "(i, v) \<in> set (enumerate 0 xs) \<Longrightarrow> size v < Suc (size_list size xs)"
proof -
  assume "(i, v) \<in> set (enumerate 0 xs)"
  then have "v \<in> set xs" by (auto simp: in_set_enumerate_eq)
  then have "size v \<le> size_list size xs" by (simp add: size_list_estimation')
  then show ?thesis by simp
qed

lemma enumerate_size_snd:
  "(i, k, v) \<in> set (enumerate 0 kvs) \<Longrightarrow> size v < Suc (size_list (size_prod (\<lambda>_. 0) size) kvs)"
proof -
  assume "(i, k, v) \<in> set (enumerate 0 kvs)"
  then have "(k, v) \<in> set kvs" by (auto simp: in_set_enumerate_eq dest: nth_mem)
  then have "size_prod (\<lambda>_. 0) size (k, v) \<le> size_list (size_prod (\<lambda>_. 0) size) kvs"
    by (simp add: size_list_estimation')
  then show ?thesis by simp
qed

function renderSyntaxHighlightedJson :: "JsonValue \<Rightarrow> nat \<Rightarrow> ReactNode" where
  "renderSyntaxHighlightedJson JNull depth = span ''json-null'' [Text ''null'']"
| "renderSyntaxHighlightedJson (JString s) depth =
     span ''json-string'' [Text [CHR 0x22], Text s, Text [CHR 0x22]]"
| "renderSyntaxHighlightedJson (JNumber n) depth = span ''json-number'' [Text (Number_toString n)]"
| "renderSyntaxHighlightedJson (JBoolean b) depth =
     span ''json-boolean'' [Text (if b then ''true'' else ''false'')]"
| "renderSyntaxHighlightedJson (JArray obj) depth =
     (let indent = concat (replicate depth ''  '') in
      if length obj = 0 then span ''json-bracket'' [Text ''[]'']
      else span []
        ([span ''json-bracket'' [Text ''['']]
         @ map (\<lambda>(index, item).
              span [] ([Br, Text indent, Text ''  '', renderSyntaxHighlightedJson item (depth + 1)]
                       @ (if index < length obj - 1 then [span ''json-comma'' [Text '','']] else [])))
             (enumerate 0 obj)
         @ [Br, Text indent, span ''json-bracket'' [Text '']'']]))"
| "renderSyntaxHighlightedJson (JObject obj) depth =
     (let indent = concat (replicate depth ''  ''); keys = map fst obj in
      if length keys = 0 then span ''json-brace'' [Text ''{}'']
      else span []
        ([span ''json-brace'' [Text ''{'']]
         @ map (\<lambda>(index, key, v).
              span [] ([Br, Text indent, Text ''  '',
                        span ''json-key'' [Text [CHR 0x22], Text key, Text [CHR 0x22]],
                        span ''json-colon'' [Text '': ''],
                        renderSyntaxHighlightedJson v (depth + 1)]
                       @ (if index < length keys - 1 then [span ''json-comma'' [Text '','']] else [])))
             (enumerate 0 obj)
         @ [Br, Text indent, span ''json-brace'' [Text ''}'']]))"
  by pat_completeness auto
termination
  by (relation "measure (\<lambda>(v, d). size v)")
     (auto dest: enumerate_size enumerate_size_snd)

section \<open>The document model: \<^verbatim>\<open>createNode\<close>\<close>

datatype JsonNode = JsonNode
  (node_key: string)
  (node_value: JsonValue)
  (node_type: JsonType)
  (node_path: string)
  (node_isExpanded: bool)
  (node_children: "JsonNode list option")

text \<open>
  \<^verbatim>\<open>Object.entries\<close> of a container: an array's entries are its elements under
  their indices, an object's entries are its properties. The source calls it on
  containers only.
\<close>

fun Object_entries :: "JsonValue \<Rightarrow> (string \<times> JsonValue) list" where
  "Object_entries (JArray xs) = zip (map string_of_nat [0..<length xs]) xs"
| "Object_entries (JObject kvs) = kvs"
| "Object_entries v = []"

lemma Object_entries_size:
  "(k, v) \<in> set (Object_entries obj) \<Longrightarrow> size v < size obj"
proof (cases obj)
  case (JArray xs)
  assume "(k, v) \<in> set (Object_entries obj)"
  with JArray have "v \<in> set xs"
    by (auto dest: set_zip_rightD)
  then have "size v \<le> size_list size xs"
    by (simp add: size_list_estimation')
  with JArray show ?thesis by simp
next
  case (JObject kvs)
  assume "(k, v) \<in> set (Object_entries obj)"
  with JObject have "(k, v) \<in> set kvs" by simp
  then have "size_prod (\<lambda>_. 0) size (k, v) \<le> size_list (size_prod (\<lambda>_. 0) size) kvs"
    by (simp add: size_list_estimation')
  with JObject show ?thesis by simp
qed simp_all

function createNode :: "string set \<Rightarrow> string \<Rightarrow> JsonValue \<Rightarrow> string \<Rightarrow> JsonNode" where
  "createNode expPaths key value path =
     JsonNode key value (typeOf value) path (path \<in> expPaths)
       (if typeOf value = TObject \<or> typeOf value = TArray
        then Some (map (\<lambda>(k, v). createNode expPaths k v (path @ ''.'' @ k))
                       (Object_entries value))
        else None)"
  by pat_completeness auto
termination
  by (relation "measure (\<lambda>(e, k, v, p). size v)") (auto dest: Object_entries_size)

declare createNode.simps [simp del]

text \<open>The nodes of a tree in pre-order, and the node at a position (child indices).\<close>

fun preorder :: "JsonNode \<Rightarrow> JsonNode list" where
  "preorder (JsonNode k v t p e cs) =
     JsonNode k v t p e cs #
       (case cs of None \<Rightarrow> [] | Some ns \<Rightarrow> concat (map preorder ns))"

fun nodeAt :: "JsonNode \<Rightarrow> nat list \<Rightarrow> JsonNode option" where
  "nodeAt n [] = Some n"
| "nodeAt n (i # pos) =
     (case node_children n of
        None \<Rightarrow> None
      | Some cs \<Rightarrow> if i < length cs then nodeAt (cs ! i) pos else None)"

section \<open>The editor's state\<close>

text \<open>
  The five \<^verbatim>\<open>useState\<close> cells of \<^verbatim>\<open>JsonEditor\<close>. \<^verbatim>\<open>parsedJson\<close> starts as
  JavaScript \<^verbatim>\<open>null\<close>, the value that parsing the text \<^verbatim>\<open>null\<close> also gives.
\<close>

record EditorState =
  jsonInput :: string
  parsedJson :: JsonValue
  validationError :: string
  expandedPaths :: "string set"
  activeTab :: string

definition initialState :: EditorState where
  "initialState =
     \<lparr>jsonInput = [], parsedJson = JNull, validationError = [],
      expandedPaths = {''root''}, activeTab = ''tree''\<rparr>"

definition handleNodeToggle :: "string \<Rightarrow> EditorState \<Rightarrow> EditorState" where
  "handleNodeToggle path st =
     (if path \<in> expandedPaths st
      then st\<lparr>expandedPaths := expandedPaths st - {path}\<rparr>
      else st\<lparr>expandedPaths := insert path (expandedPaths st)\<rparr>)"

text \<open>\<^verbatim>\<open>typeof obj === 'object'\<close>: true of \<^verbatim>\<open>null\<close>, arrays and objects.\<close>

fun typeof_object :: "JsonValue \<Rightarrow> bool" where
  "typeof_object JNull = True"
| "typeof_object (JArray xs) = True"
| "typeof_object (JObject kvs) = True"
| "typeof_object v = False"

text \<open>
  \<^verbatim>\<open>Object.keys(obj).forEach(key => ... obj[key] ...)\<close> visits every property with its
  value, which is the list of entries.
\<close>

function getAllPaths :: "JsonValue \<Rightarrow> string \<Rightarrow> string list" where
  "getAllPaths obj currentPath =
     [currentPath] @
       (if truthy obj \<and> typeof_object obj
        then concat (map (\<lambda>(key, v). getAllPaths v (currentPath @ ''.'' @ key))
                         (Object_entries obj))
        else [])"
  by pat_completeness auto
termination
  by (relation "measure (\<lambda>(v, p). size v)") (auto dest: Object_entries_size)

declare getAllPaths.simps [simp del]

definition expandAll :: "EditorState \<Rightarrow> EditorState" where
  "expandAll st =
     (if truthy (parsedJson st)
      then st\<lparr>expandedPaths := set (getAllPaths (parsedJson st) ''root'')\<rparr>
      else st)"

definition collapseAll :: "EditorState \<Rightarrow> EditorState" where
  "collapseAll st = st\<lparr>expandedPaths := {''root''}\<rparr>"

subsection \<open>Validation\<close>

text \<open>
  \<^verbatim>\<open>String.prototype.trim\<close> removes white space and line terminators from both ends;
  these are the ones among the characters below 256.
\<close>

definition isWhiteSpace :: "char \<Rightarrow> bool" where
  "isWhiteSpace c =
     (c = CHR 0x09 \<or> c = CHR 0x0A \<or> c = CHR 0x0B \<or> c = CHR 0x0C \<or> c = CHR 0x0D
      \<or> c = CHR 0x20 \<or> c = CHR 0xA0)"

definition trim :: "string \<Rightarrow> string" where
  "trim s = rev (dropWhile isWhiteSpace (rev (dropWhile isWhiteSpace s)))"

text \<open>
  \<^verbatim>\<open>validateAndParseJson\<close>. \<^verbatim>\<open>JSON.parse\<close> belongs to the platform: it is the parameter
  \<open>parser\<close>, which returns the parsed value, or the message of the \<^verbatim>\<open>SyntaxError\<close>
  it throws.
\<close>

definition validateAndParseJson ::
  "(string \<Rightarrow> string + JsonValue) \<Rightarrow> string \<Rightarrow> EditorState \<Rightarrow> EditorState" where
  "validateAndParseJson parser input st =
     (if trim input = [] then st\<lparr>parsedJson := JNull, validationError := []\<rparr>
      else
        (case parser input of
           Inr parsed \<Rightarrow> st\<lparr>parsedJson := parsed, validationError := []\<rparr>
         | Inl message \<Rightarrow> st\<lparr>validationError := message, parsedJson := JNull\<rparr>))"

text \<open>
  The badge beside the input's title:
  \<^verbatim>\<open>validationError ? Invalid : parsedJson ? Valid : null\<close>.
\<close>

datatype badge = Invalid | Valid

definition status_badge :: "EditorState \<Rightarrow> badge option" where
  "status_badge st =
     (if validationError st \<noteq> [] then Some Invalid
      else if truthy (parsedJson st) then Some Valid
      else None)"

subsection \<open>Upload\<close>

text \<open>
  A browser \<^verbatim>\<open>File\<close> with its name, its MIME type and the text a \<^verbatim>\<open>FileReader\<close>
  would read from it. What a handler does outside the editor's state is the list of
  effects it returns: a toast, or a read handed to a \<^verbatim>\<open>FileReader\<close>, whose
  \<^verbatim>\<open>onload\<close> later stores the content in the buffer.
\<close>

record JsFile =
  file_name :: string
  file_type :: string
  file_text :: string

datatype effect = Toast string string string | ReadAsText JsFile

definition endsWith :: "string \<Rightarrow> string \<Rightarrow> bool" where
  "endsWith s suffix =
     (length suffix \<le> length s \<and> drop (length s - length suffix) s = suffix)"

fun handleFileUpload :: "JsFile option \<Rightarrow> EditorState \<Rightarrow> EditorState \<times> effect list" where
  "handleFileUpload None st = (st, [])"
| "handleFileUpload (Some file) st =
     (if file_type file \<noteq> ''application/json'' \<and> \<not> endsWith (file_name file) ''.json''
      then (st, [Toast ''Invalid file type'' ''Please upload a JSON file'' ''destructive''])
      else (st, [ReadAsText file]))"

definition reader_onload :: "JsFile \<Rightarrow> EditorState \<Rightarrow> EditorState" where
  "reader_onload file st = st\<lparr>jsonInput := file_text file\<rparr>"

subsection \<open>Format, minify and the sample document\<close>



definition sampleJson :: JsonValue where
  "sampleJson =
     JObject
      [(''name'', JString ''John Doe''),
       (''age'', JNumber (Finite 30 0)),
       (''isActive'', JBoolean True),
       (''address'', JObject
          [(''street'', JString ''123 Main St''),
           (''city'', JString ''New York''),
           (''zipCode'', JString ''10001''),
           (''coordinates'', JObject
              [(''lat'', JNumber (Finite 407128 (- 4))),
               (''lng'', JNumber (Finite (- 74006) (- 3)))])]),
       (''hobbies'', JArray [JString ''reading'', JString ''swimming'', JString ''coding'']),
       (''spouse'', JNull),
       (''skills'', JObject
          [(''programming'', JArray [JString ''JavaScript'', JString ''Python'', JString ''React'']),
           (''languages'', JArray [JString ''English'', JString ''Spanish''])])]"

text \<open>
  The effect that runs once, on mount:
  \<^verbatim>\<open>setJsonInput(JSON.stringify(sampleJson, null, 2)); setParsedJson(sampleJson)\<close>.
\<close>

definition mountEffect :: "EditorState \<Rightarrow> EditorState" where
  "mountEffect st = st\<lparr>jsonInput := JSON_stringify sampleJson 2, parsedJson := sampleJson\<rparr>"

section \<open>The tree view: \<^verbatim>\<open>JsonViewer\<close>\<close>

text \<open>
  \<^verbatim>\<open>renderValue\<close>: the literal of a scalar by the node's type; nothing for the other
  types. The type of a node is the type of its value.
\<close>

fun renderValue :: "JsonValue \<Rightarrow> JsonType \<Rightarrow> ReactNode list" where
  "renderValue (JString s) TString =
     [span ''json-string'' [Text [CHR 0x22], Text s, Text [CHR 0x22]]]"
| "renderValue (JNumber n) TNumber = [span ''json-number'' [Text (Number_toString n)]]"
| "renderValue (JBoolean b) TBoolean =
     [span ''json-boolean'' [Text (if b then ''true'' else ''false'')]]"
| "renderValue v TNull = [span ''json-null'' [Text ''null'']]"
| "renderValue v t = []"

definition hasChildren :: "JsonNode \<Rightarrow> bool" where
  "hasChildren node =
     (case node_children node of None \<Rightarrow> False | Some cs \<Rightarrow> length cs > 0)"

text \<open>
  \<^verbatim>\<open>renderNode\<close>: the header line (the expand button or a spacer, the key, the colon,
  then the bracket with the count summary and the closing bracket when the node is not
  expanded, or the scalar's literal), followed, when the node has children and is
  expanded, by the children one level deeper and the closing bracket.
\<close>

fun renderNode :: "JsonNode \<Rightarrow> nat \<Rightarrow> ReactNode" where
  "renderNode (JsonNode key value type path isExpanded children) depth =
     (let hasChildren = (case children of None \<Rightarrow> False | Some cs \<Rightarrow> length cs > 0);
          indent = depth * 20
      in Element ''div'' ''tree-item'' None
          ([Element ''div'' ''flex items-center py-1 px-2 cursor-pointer'' (Some (indent + 8))
              ([if hasChildren
                then Element ''button'' ''tree-expand-button mr-1 p-0.5 hover:bg-accent rounded'' None
                       [if isExpanded then Icon ''ChevronDown'' else Icon ''ChevronRight'']
                else Element ''div'' ''w-4 mr-1'' None []]
               @ [span ''json-key mr-2'' [Text key], span ''json-colon mr-2'' [Text '':'']]
               @ (if type = TObject \<or> type = TArray
                  then [span ''json-bracket''
                          ([Text (if type = TArray then ''['' else ''{'')]
                           @ (if \<not> isExpanded
                              then [span ''text-muted-foreground text-xs ml-1''
                                      [Text (string_of_nat
                                               (case children of None \<Rightarrow> 0 | Some cs \<Rightarrow> length cs)),
                                       Text '' '',
                                       Text (if type = TArray then ''items'' else ''keys'')],
                                    span ''ml-1'' [Text (if type = TArray then '']'' else ''}'')]]
                              else []))]
                  else renderValue value type))]
           @ (if hasChildren \<and> isExpanded
              then [Element ''div'' [] None
                      ((case children of
                          None \<Rightarrow> []
                        | Some cs \<Rightarrow> map (\<lambda>child. renderNode child (depth + 1)) cs)
                       @ [Element ''div'' ''json-bracket'' (Some (indent + 8))
                            [Text (if type = TArray then '']'' else ''}'')]])]
              else [])))"

text \<open>
  The click handler of the header:
  \<^verbatim>\<open>onClick={() => hasChildren && onNodeToggle?.(node.path)}\<close>.
\<close>

definition onClick :: "JsonNode \<Rightarrow> EditorState \<Rightarrow> EditorState" where
  "onClick node st = (if hasChildren node then handleNodeToggle (node_path node) st else st)"

text \<open>
  The component: nothing for a falsy document; otherwise the children of the root node,
  each rendered at depth 0.
\<close>

definition JsonViewer :: "JsonValue \<Rightarrow> string set \<Rightarrow> ReactNode list" where
  "JsonViewer data expPaths =
     (if \<not> truthy data then []
      else [Element ''div'' ''font-mono text-sm'' None
              (case node_children (createNode expPaths ''root'' data ''root'') of
                 None \<Rightarrow> []
               | Some cs \<Rightarrow> map (\<lambda>child. renderNode child 0) cs)])"

text \<open>The expand buttons of a rendering, and its line breaks.\<close>

fun buttons :: "ReactNode \<Rightarrow> nat" where
  "buttons (Element tag className style children) =
     (if tag = ''button'' then 1 else 0) + sum_list (map buttons children)"
| "buttons n = 0"

section \<open>Debounced validation\<close>












section \<open>Parsing: \<^verbatim>\<open>JSON.parse\<close>\<close>

text \<open>
  \<^verbatim>\<open>JSON.parse\<close> belongs to the platform. This is its grammar (ECMA-404) as a
  recursive-descent parser over the characters of the text. The recursion is bounded by
  a fuel, for which the length of the text is enough. What is not modelled: a number is
  read exactly as the decimal it is written as, without the rounding to a double (only
  the overflow to infinity is kept, at the threshold \<open>2^1024 - 2^970\<close> of IEEE 754),
  minus zero is zero, an escape \<^verbatim>\<open>\uXXXX\<close> above \<^verbatim>\<open>00FF\<close> is refused, being outside the
  characters of the model, and the message of every error is the same.
\<close>

definition is_ws :: "char \<Rightarrow> bool" where
  "is_ws c = (c = CHR 0x20 \<or> c = CHR 0x09 \<or> c = CHR 0x0A \<or> c = CHR 0x0D)"

definition skip_ws :: "string \<Rightarrow> string" where
  "skip_ws s = dropWhile is_ws s"

definition is_digit :: "char \<Rightarrow> bool" where
  "is_digit c = (48 \<le> (of_char c :: nat) \<and> (of_char c :: nat) \<le> 57)"

definition nat_of_digits :: "string \<Rightarrow> nat" where
  "nat_of_digits ds = foldl (\<lambda>a c. 10 * a + digit_val c) 0 ds"

definition hex_val :: "char \<Rightarrow> nat option" where
  "hex_val c =
     (let n = (of_char c :: nat) in
      if 48 \<le> n \<and> n \<le> 57 then Some (n - 48)
      else if 97 \<le> n \<and> n \<le> 102 then Some (n - 87)
      else if 65 \<le> n \<and> n \<le> 70 then Some (n - 55)
      else None)"

definition unescape :: "char \<Rightarrow> char option" where
  "unescape e =
     (if e = CHR 0x22 then Some (CHR 0x22)
      else if e = CHR 0x5C then Some (CHR 0x5C)
      else if e = CHR ''/'' then Some (CHR ''/'')
      else if e = CHR ''b'' then Some (CHR 0x08)
      else if e = CHR ''f'' then Some (CHR 0x0C)
      else if e = CHR ''n'' then Some (CHR 0x0A)
      else if e = CHR ''r'' then Some (CHR 0x0D)
      else if e = CHR ''t'' then Some (CHR 0x09)
      else None)"

definition hex4 :: "string \<Rightarrow> nat option" where
  "hex4 hs =
     (case map hex_val hs of
        [Some a, Some b, Some c, Some d] \<Rightarrow> Some (((a * 16 + b) * 16 + c) * 16 + d)
      | _ \<Rightarrow> None)"

fun string_chars :: "string \<Rightarrow> (string \<times> string) option" where
  "string_chars [] = None"
| "string_chars (c # cs) =
     (if c = CHR 0x22 then Some ([], cs)
      else if c = CHR 0x5C then
        (case cs of
           [] \<Rightarrow> None
         | e # cs' \<Rightarrow>
             if e = CHR ''u'' then
               (case hex4 (take 4 cs') of
                  None \<Rightarrow> None
                | Some n \<Rightarrow>
                    if n < 256
                    then map_option (\<lambda>(s, r). (char_of n # s, r)) (string_chars (drop 4 cs'))
                    else None)
             else
               (case unescape e of
                  None \<Rightarrow> None
                | Some ch \<Rightarrow> map_option (\<lambda>(s, r). (ch # s, r)) (string_chars cs')))
      else if (of_char c :: nat) < 0x20 then None
      else map_option (\<lambda>(s, r). (c # s, r)) (string_chars cs))"


definition overflow_threshold :: nat where
  "overflow_threshold = 2 ^ 1024 - 2 ^ 970"

fun strip_frac :: "nat \<Rightarrow> int \<Rightarrow> nat \<times> int" where
  "strip_frac m e =
     (if e < 0 \<and> m \<noteq> 0 \<and> m mod 10 = 0 then strip_frac (m div 10) (e + 1) else (m, e))"

declare strip_frac.simps [simp del]

definition to_number :: "bool \<Rightarrow> nat \<Rightarrow> int \<Rightarrow> number" where
  "to_number neg m e =
     (if m = 0 then Finite 0 0
      else
        (let (m', e') = (if 0 \<le> e then (m * 10 ^ nat e, 0) else strip_frac m e)
         in if overflow_threshold * 10 ^ nat (- e') \<le> m'
            then (if neg then NegInfinity else PosInfinity)
            else Finite (if neg then - int m' else int m') e'))"

definition frac_part :: "string \<Rightarrow> (string \<times> string) option" where
  "frac_part s =
     (case s of
        [] \<Rightarrow> Some ([], s)
      | c # t \<Rightarrow>
          if c = CHR ''.''
          then (if takeWhile is_digit t = [] then None
                else Some (takeWhile is_digit t, dropWhile is_digit t))
          else Some ([], s))"

definition exp_digits :: "int \<Rightarrow> string \<Rightarrow> (int \<times> string) option" where
  "exp_digits sign s =
     (if takeWhile is_digit s = [] then None
      else Some (sign * int (nat_of_digits (takeWhile is_digit s)), dropWhile is_digit s))"

definition exp_part :: "string \<Rightarrow> (int \<times> string) option" where
  "exp_part s =
     (case s of
        [] \<Rightarrow> Some (0, s)
      | c # t \<Rightarrow>
          if c = CHR ''e'' \<or> c = CHR ''E''
          then (case t of
                  [] \<Rightarrow> None
                | d # u \<Rightarrow>
                    if d = CHR ''+'' then exp_digits 1 u
                    else if d = CHR ''-'' then exp_digits (- 1) u
                    else exp_digits 1 t)
          else Some (0, s))"

definition unsigned_number :: "bool \<Rightarrow> string \<Rightarrow> (number \<times> string) option" where
  "unsigned_number neg s =
     (let ip = takeWhile is_digit s in
      if ip = [] \<or> (1 < length ip \<and> hd ip = CHR ''0'') then None
      else
        (case frac_part (dropWhile is_digit s) of
           None \<Rightarrow> None
         | Some (fp, s') \<Rightarrow>
             (case exp_part s' of
                None \<Rightarrow> None
              | Some (ex, s'') \<Rightarrow>
                  Some (to_number neg (nat_of_digits (ip @ fp)) (ex - int (length fp)), s''))))"

definition parse_number :: "string \<Rightarrow> (number \<times> string) option" where
  "parse_number s =
     (case s of
        [] \<Rightarrow> None
      | c # t \<Rightarrow> if c = CHR ''-'' then unsigned_number True t else unsigned_number False s)"

definition is_array_index :: "string \<Rightarrow> bool" where
  "is_array_index k =
     (k \<noteq> [] \<and> list_all is_digit k \<and> (k = ''0'' \<or> hd k \<noteq> CHR ''0'')
      \<and> nat_of_digits k < 4294967295)"

fun insert_index :: "string \<Rightarrow> JsonValue \<Rightarrow> (string \<times> JsonValue) list \<Rightarrow> (string \<times> JsonValue) list" where
  "insert_index k v [] = [(k, v)]"
| "insert_index k v ((k', v') # al) =
     (if is_array_index k' \<and> nat_of_digits k' < nat_of_digits k
      then (k', v') # insert_index k v al
      else (k, v) # (k', v') # al)"

fun replace_value :: "string \<Rightarrow> JsonValue \<Rightarrow> (string \<times> JsonValue) list \<Rightarrow> (string \<times> JsonValue) list" where
  "replace_value k v [] = []"
| "replace_value k v ((k', v') # al) =
     (if k' = k then (k, v) # al else (k', v') # replace_value k v al)"

definition CreateDataProperty ::
  "(string \<times> JsonValue) list \<Rightarrow> string \<Rightarrow> JsonValue \<Rightarrow> (string \<times> JsonValue) list" where
  "CreateDataProperty al k v =
     (if k \<in> set (map fst al) then replace_value k v al
      else if is_array_index k then insert_index k v al
      else al @ [(k, v)])"

fun parse_value :: "nat \<Rightarrow> string \<Rightarrow> (JsonValue \<times> string) option"
  and parse_elements :: "nat \<Rightarrow> string \<Rightarrow> (JsonValue list \<times> string) option"
  and parse_members ::
    "nat \<Rightarrow> (string \<times> JsonValue) list \<Rightarrow> string \<Rightarrow> ((string \<times> JsonValue) list \<times> string) option"
where
  "parse_value 0 s = None"
| "parse_value (Suc n) s =
     (case skip_ws s of
        [] \<Rightarrow> None
      | c # cs \<Rightarrow>
          if c = CHR ''['' then
            (case skip_ws cs of
               [] \<Rightarrow> None
             | d # ds \<Rightarrow>
                 if d = CHR '']'' then Some (JArray [], ds)
                 else map_option (\<lambda>(vs, r). (JArray vs, r)) (parse_elements n cs))
          else if c = CHR ''{'' then
            (case skip_ws cs of
               [] \<Rightarrow> None
             | d # ds \<Rightarrow>
                 if d = CHR ''}'' then Some (JObject [], ds)
                 else map_option (\<lambda>(kvs, r). (JObject kvs, r)) (parse_members n [] cs))
          else if c = CHR 0x22 then map_option (\<lambda>(str, r). (JString str, r)) (string_chars cs)
          else if take 4 (c # cs) = ''null'' then Some (JNull, drop 4 (c # cs))
          else if take 4 (c # cs) = ''true'' then Some (JBoolean True, drop 4 (c # cs))
          else if take 5 (c # cs) = ''false'' then Some (JBoolean False, drop 5 (c # cs))
          else map_option (\<lambda>(num, r). (JNumber num, r)) (parse_number (c # cs)))"
| "parse_elements 0 s = None"
| "parse_elements (Suc n) s =
     (case parse_value n s of
        None \<Rightarrow> None
      | Some (v, r) \<Rightarrow>
          (case skip_ws r of
             [] \<Rightarrow> None
           | c # cs \<Rightarrow>
               if c = CHR '','' then map_option (\<lambda>(vs, r'). (v # vs, r')) (parse_elements n cs)
               else if c = CHR '']'' then Some ([v], cs)
               else None))"
| "parse_members 0 acc s = None"
| "parse_members (Suc n) acc s =
     (case skip_ws s of
        [] \<Rightarrow> None
      | q # t \<Rightarrow>
          if q \<noteq> CHR 0x22 then None
          else
            (case string_chars t of
               None \<Rightarrow> None
             | Some (k, r) \<Rightarrow>
                 (case skip_ws r of
                    [] \<Rightarrow> None
                  | col # r' \<Rightarrow>
                      if col \<noteq> CHR '':'' then None
                      else
                        (case parse_value n r' of
                           None \<Rightarrow> None
                         | Some (v, r'') \<Rightarrow>
                             (case skip_ws r'' of
                                [] \<Rightarrow> None
                              | c # cs \<Rightarrow>
                                  if c = CHR '','' then parse_members n (CreateDataProperty acc k v) cs
                                  else if c = CHR ''}'' then Some (CreateDataProperty acc k v, cs)
                                  else None)))))"

definition JSON_parse :: "string \<Rightarrow> string + JsonValue" where
  "JSON_parse s =
     (case parse_value (length s) s of
        None \<Rightarrow> Inl ''SyntaxError''
      | Some (v, r) \<Rightarrow> if skip_ws r = [] then Inr v else Inl ''SyntaxError'')"

section \<open>Predicates on parsed values\<close>










section \<open>Predicates on documents\<close>

text \<open>
  A character that \<^verbatim>\<open>JSON.stringify\<close> does not copy as it is: the double quote, the
  backslash and the control characters. A string is verbatim when it has none, and a
  document is plain when its strings and keys are verbatim and its numbers finite.
\<close>

definition needs_escape :: "char \<Rightarrow> bool" where
  "needs_escape c = (c = CHR 0x22 \<or> c = CHR 0x5C \<or> (of_char c :: nat) < 0x20)"

definition verbatim :: "string \<Rightarrow> bool" where
  "verbatim s = list_all (\<lambda>c. \<not> needs_escape c) s"

fun plain :: "JsonValue \<Rightarrow> bool" where
  "plain JNull = True"
| "plain (JBoolean b) = True"
| "plain (JNumber n) = isFinite n"
| "plain (JString s) = verbatim s"
| "plain (JArray xs) = list_all plain xs"
| "plain (JObject kvs) = list_all (\<lambda>(k, v). verbatim k \<and> plain v) kvs"

text \<open>
  A JavaScript object has no two properties of the same name: \<open>wellformed\<close> says so of
  every object of a document. \<open>dotfree\<close>: no property name of the document contains the
  path separator.
\<close>

fun wellformed :: "JsonValue \<Rightarrow> bool" where
  "wellformed (JArray xs) = list_all wellformed xs"
| "wellformed (JObject kvs) = (distinct (map fst kvs) \<and> list_all (\<lambda>(k, v). wellformed v) kvs)"
| "wellformed v = True"

fun dotfree :: "JsonValue \<Rightarrow> bool" where
  "dotfree (JArray xs) = list_all dotfree xs"
| "dotfree (JObject kvs) = list_all (\<lambda>(k, v). CHR ''.'' \<notin> set k \<and> dotfree v) kvs"
| "dotfree v = True"

text \<open>The keys met on the way from the root of a document to a position.\<close>

fun keysAt :: "JsonValue \<Rightarrow> nat list \<Rightarrow> string list option" where
  "keysAt v [] = Some []"
| "keysAt v (i # pos) =
     (if (typeOf v = TObject \<or> typeOf v = TArray) \<and> i < length (Object_entries v)
      then map_option ((#) (fst (Object_entries v ! i))) (keysAt (snd (Object_entries v ! i)) pos)
      else None)"

definition dotted :: "string list \<Rightarrow> string" where
  "dotted ks = concat (map (\<lambda>k. ''.'' @ k) ks)"

section \<open>The parser's fuel\<close>

text \<open>The descent of \<^verbatim>\<open>JSON.parse\<close> is bounded by a fuel. Every successful call consumes at
  least one character, and a call succeeds with every fuel that is at least the number of
  characters it consumes.\<close>

lemma map_option_SomeD: "map_option f a = Some x \<Longrightarrow> \<exists>y. a = Some y \<and> x = f y"
  by (cases a) auto

lemma skip_ws_length: "length (skip_ws s) \<le> length s"
  by (simp add: skip_ws_def length_dropWhile_le)

lemma string_chars_length: "string_chars s = Some (str, r) \<Longrightarrow> length r < length s"
proof (induction s arbitrary: str r rule: string_chars.induct)
  case 1
  then show ?case by simp
next
  case (2 c cs)
  show ?case
  proof (cases "c = CHR 0x22")
    case True
    with "2.prems" show ?thesis by simp
  next
    case q: False
    show ?thesis
    proof (cases "c = CHR 0x5C")
      case True
      show ?thesis
      proof (cases cs)
        case Nil
        with "2.prems" q True show ?thesis by simp
      next
        case (Cons e cs')
        show ?thesis
        proof (cases "e = CHR ''u''")
          case u: True
          with "2.prems" q True Cons obtain n where n: "hex4 (take 4 cs') = Some n" "n < 256"
            by (auto split: option.splits if_splits)
          with "2.prems" q True Cons u obtain y where
            y: "string_chars (drop 4 cs') = Some y" "r = snd y"
            by (auto dest!: map_option_SomeD)
          from "2.IH"(1) [OF q True Cons u n(1) n(2), of "fst y" "snd y"] y
          have "length r < length (drop 4 cs')" by simp
          with Cons show ?thesis by simp
        next
          case nu: False
          with "2.prems" q True Cons obtain ch where ch: "unescape e = Some ch"
            by (auto split: option.splits)
          with "2.prems" q True Cons nu obtain y where
            y: "string_chars cs' = Some y" "r = snd y"
            by (auto dest!: map_option_SomeD)
          from "2.IH"(2) [OF q True Cons nu ch, of "fst y" "snd y"] y
          have "length r < length cs'" by simp
          with Cons show ?thesis by simp
        qed
      qed
    next
      case b: False
      with "2.prems" q have c: "\<not> (of_char c :: nat) < 0x20"
        by (auto split: if_splits)
      with "2.prems" q b obtain y where y: "string_chars cs = Some y" "r = snd y"
        by (auto dest!: map_option_SomeD)
      from "2.IH"(3) [OF q b c, of "fst y" "snd y"] y show ?thesis by simp
    qed
  qed
qed

lemma frac_part_length: "frac_part t = Some (fp, s') \<Longrightarrow> length s' \<le> length t"
proof (cases t)
  case Nil
  assume "frac_part t = Some (fp, s')"
  with Nil show ?thesis by (simp add: frac_part_def)
next
  case (Cons c u)
  assume "frac_part t = Some (fp, s')"
  with Cons have "s' = t \<or> s' = dropWhile is_digit u"
    by (auto simp: frac_part_def split: if_splits)
  with Cons length_dropWhile_le [of is_digit u] show ?thesis by auto
qed

lemma exp_digits_length: "exp_digits sg u = Some (x, r) \<Longrightarrow> length r \<le> length u"
  using length_dropWhile_le [of is_digit u]
  by (auto simp: exp_digits_def split: if_splits)

lemma exp_part_length: "exp_part t = Some (x, r) \<Longrightarrow> length r \<le> length t"
proof (cases t)
  case Nil
  assume "exp_part t = Some (x, r)"
  with Nil show ?thesis by (simp add: exp_part_def)
next
  case (Cons c u)
  assume a: "exp_part t = Some (x, r)"
  show ?thesis
  proof (cases "c = CHR ''e'' \<or> c = CHR ''E''")
    case False
    with a Cons show ?thesis by (simp add: exp_part_def)
  next
    case True
    show ?thesis
    proof (cases u)
      case Nil
      with a Cons True show ?thesis by (simp add: exp_part_def)
    next
      case inner: (Cons d w)
      from a Cons True inner have "exp_digits 1 w = Some (x, r) \<or> exp_digits (- 1) w = Some (x, r)
          \<or> exp_digits 1 u = Some (x, r)"
        by (auto simp: exp_part_def split: if_splits)
      then have "length r \<le> length w \<or> length r \<le> length u"
        by (auto dest: exp_digits_length)
      with Cons inner show ?thesis by auto
    qed
  qed
qed

lemma unsigned_number_length: "unsigned_number neg s = Some (n, r) \<Longrightarrow> length r < length s"
proof -
  assume a: "unsigned_number neg s = Some (n, r)"
  let ?ip = "takeWhile is_digit s" and ?t = "dropWhile is_digit s"
  from a have ip: "?ip \<noteq> []" by (auto simp: unsigned_number_def Let_def split: if_splits)
  from a obtain fp s' ex where f: "frac_part ?t = Some (fp, s')" and e: "exp_part s' = Some (ex, r)"
    by (auto simp: unsigned_number_def Let_def split: if_splits option.splits)
  have l1: "length ?t < length s"
    using ip length_append [of ?ip ?t] by (simp del: length_append)
  have l2: "length s' \<le> length ?t" using f by (rule frac_part_length)
  have l3: "length r \<le> length s'" using e by (rule exp_part_length)
  from l1 l2 l3 show ?thesis by simp
qed

lemma parse_number_length: "parse_number s = Some (n, r) \<Longrightarrow> length r < length s"
  by (auto simp: parse_number_def split: list.splits if_splits dest!: unsigned_number_length)

lemma fuel_split:
  assumes "length r < length s" "length s - length r \<le> m"
  obtains m' where "m = Suc m'" "length s - Suc (length r) \<le> m'"
  using assms by (cases m) auto

lemma parse_value_step:
  assumes es: "\<And>cs vs r. parse_elements n cs = Some (vs, r) \<Longrightarrow>
      length r < length cs \<and> (\<forall>m. length cs - length r \<le> m \<longrightarrow> parse_elements m cs = Some (vs, r))"
    and ms: "\<And>cs kvs r. parse_members n [] cs = Some (kvs, r) \<Longrightarrow>
      length r < length cs \<and> (\<forall>m. length cs - length r \<le> m \<longrightarrow> parse_members m [] cs = Some (kvs, r))"
    and p: "parse_value (Suc n) s = Some (v, r)"
  shows "length r < length s \<and> (\<forall>m. length s - length r \<le> m \<longrightarrow> parse_value m s = Some (v, r))"
proof (cases "skip_ws s")
  case Nil
  with p show ?thesis by simp
next
  case (Cons c cs)
  from skip_ws_length [of s] Cons have ls: "Suc (length cs) \<le> length s" by simp
  have indep: ?thesis
    if len: "length r < length s" and same: "\<And>k. parse_value (Suc k) s = parse_value (Suc n) s"
  proof (intro conjI allI impI)
    show "length r < length s" by (rule len)
  next
    fix m assume "length s - length r \<le> m"
    with len obtain m' where "m = Suc m'" by (rule fuel_split)
    with same [of m'] p show "parse_value m s = Some (v, r)" by simp
  qed
  consider (arr) "c = CHR ''[''" | (obj) "c \<noteq> CHR ''[''" "c = CHR ''{''"
    | (str) "c \<noteq> CHR ''[''" "c \<noteq> CHR ''{''" "c = CHR 0x22"
    | (other) "c \<noteq> CHR ''[''" "c \<noteq> CHR ''{''" "c \<noteq> CHR 0x22" by blast
  then show ?thesis
  proof cases
    case arr
    show ?thesis
    proof (cases "skip_ws cs")
      case Nil
      with p Cons arr show ?thesis by simp
    next
      case inner: (Cons d ds)
      from skip_ws_length [of cs] inner have lc: "Suc (length ds) \<le> length cs" by simp
      show ?thesis
      proof (cases "d = CHR '']''")
        case True
        with p Cons arr inner have "r = ds" by simp
        with lc ls have len: "length r < length s" by simp
        show ?thesis by (rule indep [OF len]) (simp add: Cons arr inner True)
      next
        case False
        with p Cons arr inner
        have "map_option (\<lambda>(vs, r). (JArray vs, r)) (parse_elements n cs) = Some (v, r)" by simp
        then obtain vs where y: "parse_elements n cs = Some (vs, r)" "v = JArray vs"
          by (auto dest!: map_option_SomeD)
        from es [OF y(1)] have l: "length r < length cs"
          and k: "\<And>m. length cs - length r \<le> m \<Longrightarrow> parse_elements m cs = Some (vs, r)"
          by blast+
        show ?thesis
        proof (intro conjI allI impI)
          show len: "length r < length s" using l ls by simp
          fix m assume "length s - length r \<le> m"
          with len obtain m' where m': "m = Suc m'" "length s - Suc (length r) \<le> m'"
            by (rule fuel_split)
          with ls have "length cs - length r \<le> m'" by simp
          from k [OF this] m'(1) y(2) Cons arr inner False
          show "parse_value m s = Some (v, r)" by simp
        qed
      qed
    qed
  next
    case obj
    show ?thesis
    proof (cases "skip_ws cs")
      case Nil
      with p Cons obj show ?thesis by simp
    next
      case inner: (Cons d ds)
      from skip_ws_length [of cs] inner have lc: "Suc (length ds) \<le> length cs" by simp
      show ?thesis
      proof (cases "d = CHR ''}''")
        case True
        with p Cons obj inner have "r = ds" by simp
        with lc ls have len: "length r < length s" by simp
        show ?thesis by (rule indep [OF len]) (simp add: Cons obj inner True)
      next
        case False
        with p Cons obj inner
        have "map_option (\<lambda>(kvs, r). (JObject kvs, r)) (parse_members n [] cs) = Some (v, r)" by simp
        then obtain kvs where y: "parse_members n [] cs = Some (kvs, r)" "v = JObject kvs"
          by (auto dest!: map_option_SomeD)
        from ms [OF y(1)] have l: "length r < length cs"
          and k: "\<And>m. length cs - length r \<le> m \<Longrightarrow> parse_members m [] cs = Some (kvs, r)"
          by blast+
        show ?thesis
        proof (intro conjI allI impI)
          show len: "length r < length s" using l ls by simp
          fix m assume "length s - length r \<le> m"
          with len obtain m' where m': "m = Suc m'" "length s - Suc (length r) \<le> m'"
            by (rule fuel_split)
          with ls have "length cs - length r \<le> m'" by simp
          from k [OF this] m'(1) y(2) Cons obj inner False
          show "parse_value m s = Some (v, r)" by simp
        qed
      qed
    qed
  next
    case str
    with p Cons obtain str' where "string_chars cs = Some (str', r)"
      by (auto dest!: map_option_SomeD)
    from string_chars_length [OF this] ls have len: "length r < length s" by simp
    show ?thesis by (rule indep [OF len]) (simp add: Cons str)
  next
    case other
    have "length r < length (c # cs)"
    proof -
      from p Cons other consider "r = drop 4 (c # cs)" | "r = drop 5 (c # cs)"
        | num where "parse_number (c # cs) = Some (num, r)"
        by (auto split: if_splits dest!: map_option_SomeD)
      then show ?thesis
      proof cases
        case 3
        then show ?thesis by (rule parse_number_length)
      qed simp_all
    qed
    with ls have len: "length r < length s" by simp
    show ?thesis by (rule indep [OF len]) (simp add: Cons other)
  qed
qed


lemma parse_elements_step:
  assumes vs: "\<And>s v r. parse_value n s = Some (v, r) \<Longrightarrow>
      length r < length s \<and> (\<forall>m. length s - length r \<le> m \<longrightarrow> parse_value m s = Some (v, r))"
    and es: "\<And>cs vs r. parse_elements n cs = Some (vs, r) \<Longrightarrow>
      length r < length cs \<and> (\<forall>m. length cs - length r \<le> m \<longrightarrow> parse_elements m cs = Some (vs, r))"
    and p: "parse_elements (Suc n) s = Some (xs, r)"
  shows "length r < length s \<and> (\<forall>m. length s - length r \<le> m \<longrightarrow> parse_elements m s = Some (xs, r))"
proof -
  from p obtain v r1 where v: "parse_value n s = Some (v, r1)"
    by (cases "parse_value n s") auto
  from vs [OF v] have l1: "length r1 < length s"
    and k1: "\<And>m. length s - length r1 \<le> m \<Longrightarrow> parse_value m s = Some (v, r1)"
    by blast+
  from p v obtain c cs where c: "skip_ws r1 = c # cs"
    by (cases "skip_ws r1") auto
  from skip_ws_length [of r1] c have lc: "Suc (length cs) \<le> length r1" by simp
  show ?thesis
  proof (cases "c = CHR '',''")
    case True
    with p v c have "map_option (\<lambda>(vs, r'). (v # vs, r')) (parse_elements n cs) = Some (xs, r)"
      by simp
    then obtain ys where y: "parse_elements n cs = Some (ys, r)" "xs = v # ys"
      by (auto dest!: map_option_SomeD)
    from es [OF y(1)] have l2: "length r < length cs"
      and k2: "\<And>m. length cs - length r \<le> m \<Longrightarrow> parse_elements m cs = Some (ys, r)"
      by blast+
    show ?thesis
    proof (intro conjI allI impI)
      show len: "length r < length s" using l1 l2 lc by simp
      fix m assume "length s - length r \<le> m"
      with len obtain m' where m': "m = Suc m'" "length s - Suc (length r) \<le> m'"
        by (rule fuel_split)
      from m'(2) l1 l2 lc have "length s - length r1 \<le> m'" "length cs - length r \<le> m'"
        by simp_all
      from k1 [OF this(1)] k2 [OF this(2)] m'(1) c True y(2)
      show "parse_elements m s = Some (xs, r)" by simp
    qed
  next
    case False
    with p v c have e: "c = CHR '']''" "xs = [v]" "r = cs"
      by (auto split: if_splits)
    show ?thesis
    proof (intro conjI allI impI)
      show len: "length r < length s" using l1 lc e by simp
      fix m assume "length s - length r \<le> m"
      with len obtain m' where m': "m = Suc m'" "length s - Suc (length r) \<le> m'"
        by (rule fuel_split)
      from m'(2) l1 lc e have "length s - length r1 \<le> m'" by simp
      from k1 [OF this] m'(1) c e
      show "parse_elements m s = Some (xs, r)" by simp
    qed
  qed
qed

lemma parse_members_step:
  assumes vs: "\<And>s v r. parse_value n s = Some (v, r) \<Longrightarrow>
      length r < length s \<and> (\<forall>m. length s - length r \<le> m \<longrightarrow> parse_value m s = Some (v, r))"
    and ms: "\<And>acc cs kvs r. parse_members n acc cs = Some (kvs, r) \<Longrightarrow>
      length r < length cs \<and> (\<forall>m. length cs - length r \<le> m \<longrightarrow> parse_members m acc cs = Some (kvs, r))"
    and p: "parse_members (Suc n) acc s = Some (xs, r)"
  shows "length r < length s \<and> (\<forall>m. length s - length r \<le> m \<longrightarrow> parse_members m acc s = Some (xs, r))"
proof -
  from p obtain q t where q: "skip_ws s = q # t"
    by (cases "skip_ws s") auto
  from skip_ws_length [of s] q have lq: "Suc (length t) \<le> length s" by simp
  from p q have q22: "q = CHR 0x22" by (auto split: if_splits)
  from p q q22 obtain k r0 where k: "string_chars t = Some (k, r0)"
    by (cases "string_chars t") auto
  from string_chars_length [OF k] have lk: "length r0 < length t" .
  from p q q22 k obtain col r' where col: "skip_ws r0 = col # r'"
    by (cases "skip_ws r0") auto
  from skip_ws_length [of r0] col have lcol: "Suc (length r') \<le> length r0" by simp
  from p q q22 k col have colon: "col = CHR '':''" by (auto split: if_splits)
  from p q q22 k col colon obtain v r1 where v: "parse_value n r' = Some (v, r1)"
    by (cases "parse_value n r'") auto
  from vs [OF v] have l1: "length r1 < length r'"
    and k1: "\<And>m. length r' - length r1 \<le> m \<Longrightarrow> parse_value m r' = Some (v, r1)"
    by blast+
  from p q q22 k col colon v obtain c cs where c: "skip_ws r1 = c # cs"
    by (cases "skip_ws r1") auto
  from skip_ws_length [of r1] c have lc: "Suc (length cs) \<le> length r1" by simp
  show ?thesis
  proof (cases "c = CHR '',''")
    case True
    with p q q22 k col colon v c
    have y: "parse_members n (CreateDataProperty acc k v) cs = Some (xs, r)" by simp
    from ms [OF y] have l2: "length r < length cs"
      and k2: "\<And>m. length cs - length r \<le> m \<Longrightarrow>
                 parse_members m (CreateDataProperty acc k v) cs = Some (xs, r)"
      by blast+
    show ?thesis
    proof (intro conjI allI impI)
      show len: "length r < length s" using lq lk lcol l1 l2 lc by simp
      fix m assume "length s - length r \<le> m"
      with len obtain m' where m': "m = Suc m'" "length s - Suc (length r) \<le> m'"
        by (rule fuel_split)
      from m'(2) lq lk lcol l1 l2 lc
      have "length r' - length r1 \<le> m'" "length cs - length r \<le> m'" by simp_all
      from k1 [OF this(1)] k2 [OF this(2)] m'(1) q q22 k col colon c True
      show "parse_members m acc s = Some (xs, r)" by simp
    qed
  next
    case False
    with p q q22 k col colon v c
    have e: "c = CHR ''}''" "xs = CreateDataProperty acc k v" "r = cs"
      by (auto split: if_splits)
    show ?thesis
    proof (intro conjI allI impI)
      show len: "length r < length s" using lq lk lcol l1 lc e by simp
      fix m assume "length s - length r \<le> m"
      with len obtain m' where m': "m = Suc m'" "length s - Suc (length r) \<le> m'"
        by (rule fuel_split)
      from m'(2) lq lk lcol l1 lc e have "length r' - length r1 \<le> m'" by simp
      from k1 [OF this] m'(1) q q22 k col colon c e
      show "parse_members m acc s = Some (xs, r)" by simp
    qed
  qed
qed

lemma parse_fuel:
  "(\<forall>s v r. parse_value n s = Some (v, r) \<longrightarrow>
      length r < length s \<and> (\<forall>m. length s - length r \<le> m \<longrightarrow> parse_value m s = Some (v, r))) \<and>
   (\<forall>s vs r. parse_elements n s = Some (vs, r) \<longrightarrow>
      length r < length s \<and> (\<forall>m. length s - length r \<le> m \<longrightarrow> parse_elements m s = Some (vs, r))) \<and>
   (\<forall>acc s kvs r. parse_members n acc s = Some (kvs, r) \<longrightarrow>
      length r < length s \<and> (\<forall>m. length s - length r \<le> m \<longrightarrow> parse_members m acc s = Some (kvs, r)))"
proof (induction n)
  case 0
  show ?case by simp
next
  case (Suc n)
  from Suc have vs: "\<And>s v r. parse_value n s = Some (v, r) \<Longrightarrow>
      length r < length s \<and> (\<forall>m. length s - length r \<le> m \<longrightarrow> parse_value m s = Some (v, r))"
    and es: "\<And>cs vs r. parse_elements n cs = Some (vs, r) \<Longrightarrow>
      length r < length cs \<and> (\<forall>m. length cs - length r \<le> m \<longrightarrow> parse_elements m cs = Some (vs, r))"
    and ms: "\<And>acc cs kvs r. parse_members n acc cs = Some (kvs, r) \<Longrightarrow>
      length r < length cs \<and> (\<forall>m. length cs - length r \<le> m \<longrightarrow> parse_members m acc cs = Some (kvs, r))"
    by blast+
  have "length r < length s \<and> (\<forall>m. length s - length r \<le> m \<longrightarrow> parse_value m s = Some (v, r))"
    if "parse_value (Suc n) s = Some (v, r)" for s v r
    using es ms that by (rule parse_value_step)
  moreover
  have "length r < length s \<and> (\<forall>m. length s - length r \<le> m \<longrightarrow> parse_elements m s = Some (xs, r))"
    if "parse_elements (Suc n) s = Some (xs, r)" for s xs r
    using vs es that by (rule parse_elements_step)
  moreover
  have "length r < length s \<and> (\<forall>m. length s - length r \<le> m \<longrightarrow> parse_members m acc s = Some (xs, r))"
    if "parse_members (Suc n) acc s = Some (xs, r)" for acc s xs r
    using vs ms that by (rule parse_members_step)
  ultimately show ?case by blast
qed

text \<open>The fuel that \<^const>\<open>JSON_parse\<close> hands to the parser, the length of the text, never
  runs out: whatever the parser accepts with some fuel it accepts with that one.\<close>

lemma parse_value_fuel:
  assumes "parse_value n s = Some (v, r)"
  shows "parse_value (length s) s = Some (v, r)"
  using parse_fuel [of n] assms by (meson diff_le_self)

lemma JSON_parse_fuel:
  assumes "parse_value n s = Some (v, r)" and "skip_ws r = []"
  shows "JSON_parse s = Inr v"
  using parse_value_fuel [OF assms(1)] assms(2) by (simp add: JSON_parse_def)

section \<open>Expand state: toggling, expand-all, collapse-all\<close>

lemma container_iff:
  "(truthy v \<and> typeof_object v) = (typeOf v = TObject \<or> typeOf v = TArray)"
  by (cases v) auto

text \<open>
  \<^verbatim>\<open>getAllPaths\<close> walks the value exactly as \<^verbatim>\<open>createNode\<close> builds the tree: the
  list it returns is the list of the paths of the tree's nodes in pre-order.
\<close>

lemma getAllPaths_preorder:
  "getAllPaths v p = map node_path (preorder (createNode E k v p))"
proof (induction v p arbitrary: k rule: getAllPaths.induct)
  case (1 obj currentPath)
  show ?case
  proof (cases "typeOf obj = TObject \<or> typeOf obj = TArray")
    case True
    then have c: "truthy obj \<and> typeof_object obj" by (simp add: container_iff)
    have "concat (map (\<lambda>(key, v). getAllPaths v (currentPath @ ''.'' @ key))
                      (Object_entries obj))
        = concat (map (\<lambda>(key, v). map node_path
                         (preorder (createNode E key v (currentPath @ ''.'' @ key))))
                      (Object_entries obj))"
    proof (rule arg_cong [where f = concat], rule map_cong [OF refl])
      fix x assume x: "x \<in> set (Object_entries obj)"
      obtain key v where kv: "x = (key, v)" by (cases x)
      from "1.IH" [OF c x kv [symmetric]] kv
      show "(case x of (key, v) \<Rightarrow> getAllPaths v (currentPath @ ''.'' @ key)) =
            (case x of (key, v) \<Rightarrow> map node_path
               (preorder (createNode E key v (currentPath @ ''.'' @ key))))"
        by simp
    qed
    then show ?thesis using True c
      by (subst getAllPaths.simps, subst createNode.simps)
         (simp add: map_concat comp_def case_prod_unfold)
  next
    case False
    then have "\<not> (truthy obj \<and> typeof_object obj)" by (simp add: container_iff)
    with False show ?thesis
      by (subst getAllPaths.simps, subst createNode.simps) auto
  qed
qed

text \<open>
  Claim C7. For every path \<open>p\<close> and every expand state, one toggle of \<open>p\<close> flips the
  membership of \<open>p\<close> (it removes \<open>p\<close> when present and adds it when absent), and two
  toggles in succession give back the membership \<open>p\<close> had, indeed the whole state.
\<close>

theorem handleNodeToggle_twice:
  "(p \<in> expandedPaths (handleNodeToggle p (handleNodeToggle p st))) = (p \<in> expandedPaths st)
   \<and> (p \<in> expandedPaths (handleNodeToggle p st)) = (p \<notin> expandedPaths st)
   \<and> expandedPaths (handleNodeToggle p st) =
       (if p \<in> expandedPaths st then expandedPaths st - {p} else insert p (expandedPaths st))
   \<and> handleNodeToggle p (handleNodeToggle p st) = st"
  by (cases "p \<in> expandedPaths st") (simp_all add: handleNodeToggle_def insert_absorb)

text \<open>
  Claim C4. Collapse-all replaces the expand state by the singleton of the root path and
  changes nothing else, whatever the state was; so expand-all followed by collapse-all
  leaves exactly \<open>{root}\<close>. Expand-all, when a document is present, replaces the expand
  state by the set of the paths of all nodes of the document's tree, collected in
  pre-order.
\<close>

theorem collapseAll_after_expandAll:
  "collapseAll st = st\<lparr>expandedPaths := {''root''}\<rparr>
   \<and> expandedPaths (collapseAll (expandAll st)) = {''root''}
   \<and> (truthy (parsedJson st) \<longrightarrow>
        expandedPaths (expandAll st) =
          set (map node_path
                 (preorder (createNode (expandedPaths st) ''root'' (parsedJson st) ''root''))))"
  by (simp add: collapseAll_def expandAll_def getAllPaths_preorder [symmetric])

theorem collapseAll_after_expandAll_witness:
  "truthy (JArray [JNull, JObject [(''a'', JArray [])]])
   \<and> expandedPaths (expandAll (initialState\<lparr>parsedJson := JArray [JNull, JObject [(''a'', JArray [])]]\<rparr>))
       = {''root'', ''root.0'', ''root.1'', ''root.1.a''}
   \<and> expandedPaths (collapseAll (expandAll
         (initialState\<lparr>parsedJson := JArray [JNull, JObject [(''a'', JArray [])]]\<rparr>)))
       = {''root''}"
proof -
  let ?v = "JArray [JNull, JObject [(''a'', JArray [])]]"
  have paths: "map node_path (preorder (createNode {''root''} ''root'' ?v ''root''))
      = [''root'', ''root.0'', ''root.1'', ''root.1.a'']"
    by (simp add: createNode.simps string_of_nat.simps digit_char_def upt_rec)
  show ?thesis
    using collapseAll_after_expandAll [of "initialState\<lparr>parsedJson := ?v\<rparr>"] paths
    by (simp add: initialState_def)
qed

section \<open>The formatted view and \<^verbatim>\<open>JSON.stringify\<close>\<close>






lemma JSON_stringify_2: "JSON_stringify v 2 = SerializeJSONProperty ''  '' [] v"
proof -
  have "replicate 2 CHR '' '' = ''  ''" by (simp add: numeral_2_eq_2)
  then show ?thesis by (simp add: JSON_stringify_def)
qed





text \<open>
  The other difference: a number that is not finite (\<^verbatim>\<open>JSON.parse("1e309")\<close>) is shown by
  name and serialized as \<^verbatim>\<open>null\<close>.
\<close>

lemma formatted_view_infinity:
  "innerText (renderSyntaxHighlightedJson (JNumber PosInfinity) 0) = ''Infinity''
   \<and> JSON_stringify (JNumber PosInfinity) 2 = ''null''"
  by (simp add: span_def JSON_stringify_2)

section \<open>Paths of the document model\<close>

lemma digit_cases: "d < 10 \<Longrightarrow> d = 0 \<or> d = 1 \<or> d = 2 \<or> d = 3 \<or> d = 4 \<or> d = 5 \<or> d = 6 \<or> d = 7 \<or> d = 8 \<or> d = (9::nat)"
  by arith

lemma digit_val_digit_char: "d < 10 \<Longrightarrow> digit_val (digit_char d) = d"
  by (drule digit_cases) (auto simp: digit_val_def digit_char_def)

lemma digit_char_not_dot: "d < 10 \<Longrightarrow> CHR ''.'' \<noteq> digit_char d"
  by (drule digit_cases) (auto simp: digit_char_def)

lemma string_of_nat_inverse:
  "foldl (\<lambda>a c. 10 * a + digit_val c) 0 (string_of_nat n) = n"
proof (induction n rule: string_of_nat.induct)
  case (1 n)
  show ?case
  proof (cases "n < 10")
    case True
    then show ?thesis by (subst string_of_nat.simps) (simp add: digit_val_digit_char)
  next
    case False
    with 1 show ?thesis
      by (subst string_of_nat.simps) (simp add: digit_val_digit_char)
  qed
qed

lemma string_of_nat_inj: "string_of_nat m = string_of_nat n \<Longrightarrow> m = n"
  by (metis string_of_nat_inverse)

lemma string_of_nat_dotfree: "CHR ''.'' \<notin> set (string_of_nat n)"
proof (induction n rule: string_of_nat.induct)
  case (1 n)
  show ?case
  proof (cases "n < 10")
    case True
    then show ?thesis by (subst string_of_nat.simps) (simp add: digit_char_not_dot)
  next
    case False
    with 1 show ?thesis
      by (subst string_of_nat.simps) (simp add: digit_char_not_dot)
  qed
qed

lemma createNode_sel:
  "node_path (createNode E k v r) = r"
  "node_key (createNode E k v r) = k"
  "node_children (createNode E k v r) =
     (if typeOf v = TObject \<or> typeOf v = TArray
      then Some (map (\<lambda>(k, c). createNode E k c (r @ ''.'' @ k)) (Object_entries v))
      else None)"
  by (subst createNode.simps, simp)+

lemma nodeAt_createNode:
  "map_option node_path (nodeAt (createNode E k v r) pos)
     = map_option (\<lambda>ks. r @ dotted ks) (keysAt v pos)"
proof (induction pos arbitrary: k v r)
  case Nil
  show ?case by (simp add: createNode_sel dotted_def)
next
  case (Cons i pos)
  let ?es = "Object_entries v"
  show ?case
  proof (cases "(typeOf v = TObject \<or> typeOf v = TArray) \<and> i < length ?es")
    case True
    obtain k' v' where kv: "?es ! i = (k', v')" by (cases "?es ! i")
    from True kv have "nodeAt (createNode E k v r) (i # pos)
        = nodeAt (createNode E k' v' (r @ ''.'' @ k')) pos"
      by (simp add: createNode_sel)
    with Cons.IH [of k' v' "r @ ''.'' @ k'"] True kv show ?thesis
      by (simp add: option.map_comp comp_def dotted_def)
  next
    case False
    then show ?thesis by (auto simp: createNode_sel)
  qed
qed

lemma nodeAt_append:
  "nodeAt n (p @ q) = (case nodeAt n p of None \<Rightarrow> None | Some a \<Rightarrow> nodeAt a q)"
  by (induction p arbitrary: n) (auto split: option.splits)

lemma nodeAt_is_createNode:
  "nodeAt (createNode E k v r) p = Some a \<Longrightarrow> \<exists>k' v' r'. a = createNode E k' v' r'"
proof (induction p arbitrary: k v r)
  case Nil
  then show ?case by auto
next
  case (Cons i p)
  let ?es = "Object_entries v"
  from Cons.prems have c: "typeOf v = TObject \<or> typeOf v = TArray" and i: "i < length ?es"
    by (auto simp: createNode_sel split: if_splits)
  obtain k' v' where kv: "?es ! i = (k', v')" by (cases "?es ! i")
  from Cons.prems c i kv
  have "nodeAt (createNode E k' v' (r @ ''.'' @ k')) p = Some a"
    by (simp add: createNode_sel)
  then show ?case by (rule Cons.IH)
qed

lemma child_path:
  assumes "nodeAt (createNode E k v r) p = Some a"
    and "nodeAt (createNode E k v r) (p @ [i]) = Some c"
  shows "node_path c = node_path a @ ''.'' @ node_key c"
proof -
  from nodeAt_is_createNode [OF assms(1)] obtain k' v' r' where a: "a = createNode E k' v' r'"
    by blast
  from assms have "nodeAt a [i] = Some c" by (simp add: nodeAt_append)
  with a show ?thesis
    by (auto simp: createNode_sel case_prod_unfold split: if_splits)
qed

lemma entries_keys_distinct:
  "wellformed v \<Longrightarrow> distinct (map fst (Object_entries v))"
proof (cases v)
  case (JArray xs)
  have "inj_on string_of_nat (set [0..<length xs])"
    by (rule inj_onI) (rule string_of_nat_inj)
  then have "distinct (map string_of_nat [0..<length xs])"
    by (simp add: distinct_map)
  with JArray show ?thesis by simp
qed simp_all

lemma entries_wellformed:
  "wellformed v \<Longrightarrow> (k, c) \<in> set (Object_entries v) \<Longrightarrow> wellformed c"
  by (cases v) (auto simp: list_all_iff dest: set_zip_rightD)

lemma entries_dotfree:
  "dotfree v \<Longrightarrow> (k, c) \<in> set (Object_entries v) \<Longrightarrow> CHR ''.'' \<notin> set k \<and> dotfree c"
proof (cases v)
  case (JArray xs)
  assume "dotfree v" "(k, c) \<in> set (Object_entries v)"
  with JArray have "c \<in> set xs" "k \<in> set (map string_of_nat [0..<length xs])"
    by (auto dest: set_zip_rightD set_zip_leftD)
  with \<open>dotfree v\<close> JArray show ?thesis
    by (auto simp: list_all_iff string_of_nat_dotfree)
qed (auto simp: list_all_iff)

lemma keysAt_inj:
  "wellformed v \<Longrightarrow> keysAt v p = Some ks \<Longrightarrow> keysAt v q = Some ks \<Longrightarrow> p = q"
proof (induction p arbitrary: v q ks)
  case Nil
  then show ?case by (cases q) (auto split: if_splits)
next
  case (Cons i p)
  let ?es = "Object_entries v"
  from Cons.prems(2) have i: "i < length ?es"
    by (auto split: if_splits)
  from Cons.prems(2) obtain ks' where ks: "ks = fst (?es ! i) # ks'"
    and p: "keysAt (snd (?es ! i)) p = Some ks'"
    by (auto split: if_splits)
  from Cons.prems(3) ks obtain j q' where q: "q = j # q'"
    by (cases q) auto
  from Cons.prems(3) q have j: "j < length ?es"
    by (auto split: if_splits)
  from Cons.prems(3) q ks have kj: "fst (?es ! j) = fst (?es ! i)"
    and q': "keysAt (snd (?es ! j)) q' = Some ks'"
    by (auto split: if_splits)
  from kj i j have "map fst ?es ! j = map fst ?es ! i" by simp
  moreover have "distinct (map fst ?es)"
    by (rule entries_keys_distinct [OF Cons.prems(1)])
  moreover have "j < length (map fst ?es)" "i < length (map fst ?es)"
    using i j by simp_all
  ultimately have ij: "j = i"
    by (simp only: nth_eq_iff_index_eq)
  have "(fst (?es ! i), snd (?es ! i)) \<in> set ?es" using i by simp
  then have "wellformed (snd (?es ! i))"
    by (rule entries_wellformed [OF Cons.prems(1)])
  from Cons.IH [OF this p] q' ij have "p = q'" by simp
  with q ij show ?case by simp
qed

lemma keysAt_dotfree:
  "dotfree v \<Longrightarrow> keysAt v p = Some ks \<Longrightarrow> k \<in> set ks \<Longrightarrow> CHR ''.'' \<notin> set k"
proof (induction p arbitrary: v ks)
  case Nil
  then show ?case by simp
next
  case (Cons i p)
  let ?es = "Object_entries v"
  from Cons.prems(2) have i: "i < length ?es"
    by (auto split: if_splits)
  from Cons.prems(2) obtain ks' where ks: "ks = fst (?es ! i) # ks'"
    and p: "keysAt (snd (?es ! i)) p = Some ks'"
    by (auto split: if_splits)
  have "(fst (?es ! i), snd (?es ! i)) \<in> set ?es" using i by simp
  from entries_dotfree [OF Cons.prems(1) this]
  have d: "CHR ''.'' \<notin> set (fst (?es ! i))" "dotfree (snd (?es ! i))" by simp_all
  from Cons.IH [OF d(2) p] d(1) ks Cons.prems(3) show ?case by auto
qed

lemma dotted_head: "takeWhile (\<lambda>c. c \<noteq> CHR ''.'') (dotted ks) = []"
  by (cases ks) (simp_all add: dotted_def)

lemma takeWhile_key:
  "CHR ''.'' \<notin> set k \<Longrightarrow> takeWhile (\<lambda>c. c \<noteq> CHR ''.'') (k @ dotted ks) = k"
proof -
  assume "CHR ''.'' \<notin> set k"
  then have "\<And>x. x \<in> set k \<Longrightarrow> x \<noteq> CHR ''.''" by auto
  then have "takeWhile (\<lambda>c. c \<noteq> CHR ''.'') (k @ dotted ks)
      = k @ takeWhile (\<lambda>c. c \<noteq> CHR ''.'') (dotted ks)"
    by (rule takeWhile_append2)
  then show ?thesis by (simp add: dotted_head)
qed

lemma dotted_inj:
  "\<forall>k \<in> set ks. CHR ''.'' \<notin> set k \<Longrightarrow> \<forall>k \<in> set ks'. CHR ''.'' \<notin> set k \<Longrightarrow>
   dotted ks = dotted ks' \<Longrightarrow> ks = ks'"
proof (induction ks arbitrary: ks')
  case Nil
  then show ?case by (cases ks') (simp_all add: dotted_def)
next
  case (Cons k ks)
  from Cons.prems(3) obtain k' rest where ks': "ks' = k' # rest"
    by (cases ks') (simp_all add: dotted_def)
  from Cons.prems(3) ks' have eq: "k @ dotted ks = k' @ dotted rest"
    by (simp add: dotted_def)
  have "takeWhile (\<lambda>c. c \<noteq> CHR ''.'') (k @ dotted ks) = k"
    using Cons.prems(1) by (simp add: takeWhile_key)
  moreover have "takeWhile (\<lambda>c. c \<noteq> CHR ''.'') (k' @ dotted rest) = k'"
    using Cons.prems(2) ks' by (simp add: takeWhile_key)
  ultimately have k: "k = k'" using eq by simp
  with eq have "dotted ks = dotted rest" by simp
  with Cons.IH [of rest] Cons.prems(1,2) ks' have "ks = rest" by simp
  with k ks' show ?case by simp
qed

text \<open>
  Claim C2, as the code has it. Building the tree twice from the same document, whatever
  the expand state of each build, gives every position the same path, and the path of a
  child is its parent's path, a dot and the child's key. Two distinct positions have
  different paths provided no property name of the document contains a dot (objects
  having, as in JavaScript, no two properties of the same name).
\<close>

theorem createNode_paths:
  "map_option node_path (nodeAt (createNode E ''root'' v ''root'') p)
     = map_option node_path (nodeAt (createNode E' ''root'' v ''root'') p)
   \<and> (nodeAt (createNode E ''root'' v ''root'') p = Some a
        \<and> nodeAt (createNode E ''root'' v ''root'') (p @ [i]) = Some c
        \<longrightarrow> node_path c = node_path a @ ''.'' @ node_key c)
   \<and> (wellformed v \<and> dotfree v
        \<and> nodeAt (createNode E ''root'' v ''root'') p = Some a
        \<and> nodeAt (createNode E ''root'' v ''root'') q = Some b \<and> p \<noteq> q
        \<longrightarrow> node_path a \<noteq> node_path b)"
proof (intro conjI impI)
  show "map_option node_path (nodeAt (createNode E ''root'' v ''root'') p)
     = map_option node_path (nodeAt (createNode E' ''root'' v ''root'') p)"
    by (simp only: nodeAt_createNode)
next
  assume "nodeAt (createNode E ''root'' v ''root'') p = Some a
        \<and> nodeAt (createNode E ''root'' v ''root'') (p @ [i]) = Some c"
  then show "node_path c = node_path a @ ''.'' @ node_key c"
    by (blast intro: child_path)
next
  assume h: "wellformed v \<and> dotfree v
        \<and> nodeAt (createNode E ''root'' v ''root'') p = Some a
        \<and> nodeAt (createNode E ''root'' v ''root'') q = Some b \<and> p \<noteq> q"
  show "node_path a \<noteq> node_path b"
  proof
    assume eq: "node_path a = node_path b"
    from nodeAt_createNode [of E "''root''" v "''root''" p] h obtain ks where
      ks: "keysAt v p = Some ks" "node_path a = ''root'' @ dotted ks"
      by (cases "keysAt v p") auto
    from nodeAt_createNode [of E "''root''" v "''root''" q] h obtain ks' where
      ks': "keysAt v q = Some ks'" "node_path b = ''root'' @ dotted ks'"
      by (cases "keysAt v q") auto
    from eq ks(2) ks'(2) have "dotted ks = dotted ks'" by simp
    moreover have "\<forall>k \<in> set ks. CHR ''.'' \<notin> set k"
      using keysAt_dotfree [OF _ ks(1)] h by blast
    moreover have "\<forall>k \<in> set ks'. CHR ''.'' \<notin> set k"
      using keysAt_dotfree [OF _ ks'(1)] h by blast
    ultimately have "ks = ks'" by (rule dotted_inj [rotated 2])
    with keysAt_inj [OF _ ks(1)] ks'(1) h have "p = q" by simp
    with h show False by simp
  qed
qed

theorem createNode_paths_witness:
  "wellformed (JObject [(''a'', JArray [JNull]), (''b'', JBoolean True)])
   \<and> dotfree (JObject [(''a'', JArray [JNull]), (''b'', JBoolean True)])
   \<and> nodeAt (createNode {''root''} ''root''
                (JObject [(''a'', JArray [JNull]), (''b'', JBoolean True)]) ''root'') [0]
       = Some (createNode {''root''} ''a'' (JArray [JNull]) ''root.a'')
   \<and> nodeAt (createNode {''root''} ''root''
                (JObject [(''a'', JArray [JNull]), (''b'', JBoolean True)]) ''root'') [0, 0]
       = Some (createNode {''root''} ''0'' JNull ''root.a.0'')
   \<and> [0] \<noteq> [0, 0::nat]
   \<and> node_path (createNode {''root''} ''0'' JNull ''root.a.0'')
       = node_path (createNode {''root''} ''a'' (JArray [JNull]) ''root.a'') @ ''.''
         @ node_key (createNode {''root''} ''0'' JNull ''root.a.0'')
   \<and> node_path (createNode {''root''} ''a'' (JArray [JNull]) ''root.a'')
       \<noteq> node_path (createNode {''root''} ''0'' JNull ''root.a.0'')
   \<and> map_option node_path (nodeAt (createNode {''root''} ''root''
                (JObject [(''a'', JArray [JNull]), (''b'', JBoolean True)]) ''root'') [0, 0])
       = map_option node_path (nodeAt (createNode {} ''root''
                (JObject [(''a'', JArray [JNull]), (''b'', JBoolean True)]) ''root'') [0, 0])"
proof -
  let ?v = "JObject [(''a'', JArray [JNull]), (''b'', JBoolean True)]"
  let ?t = "createNode {''root''} ''root'' ?v ''root''"
  let ?a = "createNode {''root''} ''a'' (JArray [JNull]) ''root.a''"
  let ?c = "createNode {''root''} ''0'' JNull ''root.a.0''"
  have wf: "wellformed ?v" "dotfree ?v" by simp_all
  have a: "nodeAt ?t [0] = Some ?a"
    by (simp add: createNode_sel)
  have c: "nodeAt ?t [0, 0] = Some ?c"
    by (simp add: createNode_sel string_of_nat.simps digit_char_def)
  have ne: "[0] \<noteq> [0, 0::nat]" by simp
  note inst = createNode_paths [of "{''root''}" ?v "[0]" "{}" ?a 0 ?c "[0, 0]" ?c]
  from inst a c have child: "node_path ?c = node_path ?a @ ''.'' @ node_key ?c"
    by simp
  from inst wf a c ne have distinct: "node_path ?a \<noteq> node_path ?c"
    by blast
  from createNode_paths [of "{''root''}" ?v "[0, 0]" "{}"]
  have same: "map_option node_path (nodeAt ?t [0, 0])
       = map_option node_path (nodeAt (createNode {} ''root'' ?v ''root'') [0, 0])"
    by (rule conjunct1)
  from wf a c ne child distinct same show ?thesis by (intro conjI)
qed

text \<open>
  Claim C2 as stated fails on a key that contains a dot: in \<^verbatim>\<open>{"a.b": 1, "a": {"b": 2}}\<close>
  the first property and the property \<^verbatim>\<open>b\<close> of the second both get the path
  \<^verbatim>\<open>root.a.b\<close>.
\<close>

theorem createNode_paths_counterexample:
  "wellformed (JObject [(''a.b'', JNumber (Finite 1 0)),
                        (''a'', JObject [(''b'', JNumber (Finite 2 0))])])
   \<and> map_option node_path (nodeAt (createNode {''root''} ''root''
         (JObject [(''a.b'', JNumber (Finite 1 0)),
                   (''a'', JObject [(''b'', JNumber (Finite 2 0))])]) ''root'') [0])
       = Some ''root.a.b''
   \<and> map_option node_path (nodeAt (createNode {''root''} ''root''
         (JObject [(''a.b'', JNumber (Finite 1 0)),
                   (''a'', JObject [(''b'', JNumber (Finite 2 0))])]) ''root'') [1, 0])
       = Some ''root.a.b''
   \<and> [0] \<noteq> [1, 0::nat]"
  by (simp add: createNode_sel)

section \<open>Validation of the input\<close>

lemma trim_empty_iff: "(trim s = []) = list_all isWhiteSpace s"
proof
  assume "trim s = []"
  then have "\<forall>x \<in> set (dropWhile isWhiteSpace s). isWhiteSpace x"
    by (simp add: trim_def dropWhile_eq_Nil_conv)
  then have "dropWhile isWhiteSpace s = []"
    using hd_dropWhile [of isWhiteSpace s] by (cases "dropWhile isWhiteSpace s") auto
  then show "list_all isWhiteSpace s"
    by (simp add: dropWhile_eq_Nil_conv list_all_iff)
next
  assume "list_all isWhiteSpace s"
  then have "dropWhile isWhiteSpace s = []"
    by (induction s) simp_all
  then show "trim s = []" by (simp only: trim_def rev.simps dropWhile.simps)
qed

text \<open>
  Claim C3. Validation of a text that is empty or consists of white space only gives the
  neutral state: no document, no message, and no badge (so not the Invalid one). When the
  parser fails, the message is the parser's and the document is cleared. When it succeeds,
  the document is the parsed value and the message is cleared. Nothing else changes.
\<close>

theorem validateAndParseJson_result:
  "(list_all isWhiteSpace input \<longrightarrow>
      validateAndParseJson parser input st = st\<lparr>parsedJson := JNull, validationError := []\<rparr>
      \<and> status_badge (validateAndParseJson parser input st) = None)
   \<and> (\<not> list_all isWhiteSpace input \<and> parser input = Inl message \<longrightarrow>
      validateAndParseJson parser input st
        = st\<lparr>validationError := message, parsedJson := JNull\<rparr>)
   \<and> (\<not> list_all isWhiteSpace input \<and> parser input = Inr parsed \<longrightarrow>
      validateAndParseJson parser input st
        = st\<lparr>parsedJson := parsed, validationError := []\<rparr>)"
  by (simp add: validateAndParseJson_def trim_empty_iff status_badge_def)

theorem validateAndParseJson_result_witness:
  "list_all isWhiteSpace '' \<newline> ''
   \<and> validateAndParseJson
         (\<lambda>s. if s = ''[]'' then Inr (JArray []) else Inl ''Unexpected end of JSON input'')
         '' \<newline> ''
         (initialState\<lparr>parsedJson := JBoolean True, validationError := ''old''\<rparr>)
       = initialState
   \<and> \<not> list_all isWhiteSpace ''[''
   \<and> validateAndParseJson
         (\<lambda>s. if s = ''[]'' then Inr (JArray []) else Inl ''Unexpected end of JSON input'')
         ''['' (initialState\<lparr>parsedJson := JBoolean True\<rparr>)
       = initialState\<lparr>validationError := ''Unexpected end of JSON input''\<rparr>
   \<and> \<not> list_all isWhiteSpace ''[]''
   \<and> validateAndParseJson
         (\<lambda>s. if s = ''[]'' then Inr (JArray []) else Inl ''Unexpected end of JSON input'')
         ''[]'' (initialState\<lparr>validationError := ''old''\<rparr>)
       = initialState\<lparr>parsedJson := JArray []\<rparr>"
proof -
  let ?parse = "\<lambda>s. if s = ''[]'' then Inr (JArray []) else Inl ''Unexpected end of JSON input''"
  have w: "list_all isWhiteSpace '' \<newline> ''" by (simp add: isWhiteSpace_def)
  have n1: "\<not> list_all isWhiteSpace ''[''" by (simp add: isWhiteSpace_def)
  have n2: "\<not> list_all isWhiteSpace ''[]''" by (simp add: isWhiteSpace_def)
  from w validateAndParseJson_result
    [where input = "'' \<newline> ''" and parser = ?parse
       and st = "initialState\<lparr>parsedJson := JBoolean True, validationError := ''old''\<rparr>"]
  have a: "validateAndParseJson ?parse '' \<newline> ''
         (initialState\<lparr>parsedJson := JBoolean True, validationError := ''old''\<rparr>) = initialState"
    by (simp add: initialState_def)
  from n1 validateAndParseJson_result
    [where input = "''[''" and parser = ?parse
       and message = "''Unexpected end of JSON input''"
       and st = "initialState\<lparr>parsedJson := JBoolean True\<rparr>"]
  have b: "validateAndParseJson ?parse ''['' (initialState\<lparr>parsedJson := JBoolean True\<rparr>)
       = initialState\<lparr>validationError := ''Unexpected end of JSON input''\<rparr>"
    by (simp add: initialState_def)
  from n2 validateAndParseJson_result
    [where input = "''[]''" and parser = ?parse and parsed = "JArray []"
       and st = "initialState\<lparr>validationError := ''old''\<rparr>"]
  have c: "validateAndParseJson ?parse ''[]'' (initialState\<lparr>validationError := ''old''\<rparr>)
       = initialState\<lparr>parsedJson := JArray []\<rparr>"
    by (simp add: initialState_def)
  from w a n1 b n2 c show ?thesis by (intro conjI)
qed

section \<open>Upload of a file that is not JSON\<close>

text \<open>
  Claim C9. A file whose type is not \<^verbatim>\<open>application/json\<close> and whose name does not end
  in \<^verbatim>\<open>.json\<close> is rejected before any read: the only effect is the toast, no read is
  started, and the buffer and the rest of the state are as they were.
\<close>

theorem handleFileUpload_rejects:
  "file_type file \<noteq> ''application/json'' \<Longrightarrow> \<not> endsWith (file_name file) ''.json'' \<Longrightarrow>
   handleFileUpload (Some file) st
     = (st, [Toast ''Invalid file type'' ''Please upload a JSON file'' ''destructive''])"
  by simp

theorem handleFileUpload_rejects_witness:
  "file_type \<lparr>file_name = ''notes.txt'', file_type = ''text/plain'', file_text = ''{}''\<rparr>
     \<noteq> ''application/json''
   \<and> \<not> endsWith (file_name \<lparr>file_name = ''notes.txt'', file_type = ''text/plain'', file_text = ''{}''\<rparr>) ''.json''
   \<and> handleFileUpload
        (Some \<lparr>file_name = ''notes.txt'', file_type = ''text/plain'', file_text = ''{}''\<rparr>)
        initialState
     = (initialState, [Toast ''Invalid file type'' ''Please upload a JSON file'' ''destructive''])"
proof -
  let ?f = "\<lparr>file_name = ''notes.txt'', file_type = ''text/plain'', file_text = ''{}''\<rparr>"
  have t: "file_type ?f \<noteq> ''application/json''" by simp
  have n: "\<not> endsWith (file_name ?f) ''.json''" by (simp add: endsWith_def)
  from t n handleFileUpload_rejects [OF t n, of initialState] show ?thesis by (intro conjI)
qed

section \<open>The state after mounting\<close>

lemma toString_lat: "Number_toString (Finite 407128 (-4)) = ''40.7128''"
  by (simp add: strip10.simps string_of_nat.simps digit_char_def decimal_format_def)

lemma toString_age: "Number_toString (Finite 30 0) = ''30''"
  by (simp add: strip10.simps string_of_nat.simps digit_char_def decimal_format_def)

lemma toString_lng: "Number_toString (Finite (- 74006) (- 3)) = ''-74.006''"
  by (simp add: strip10.simps string_of_nat.simps digit_char_def decimal_format_def)

lemma sample_text:
  \<open>JSON_stringify sampleJson 2 =
   ''{\<newline>  "name": "John Doe",\<newline>  "age": 30,\<newline>  "isActive": true,\<newline>  "address": {\<newline>    "street": "123 Main St",\<newline>    "city": "New York",\<newline>    "zipCode": "10001",\<newline>    "coordinates": {\<newline>      "lat": 40.7128,\<newline>      "lng": -74.006\<newline>    }\<newline>  },\<newline>  "hobbies": [\<newline>    "reading",\<newline>    "swimming",\<newline>    "coding"\<newline>  ],\<newline>  "spouse": null,\<newline>  "skills": {\<newline>    "programming": [\<newline>      "JavaScript",\<newline>      "Python",\<newline>      "React"\<newline>    ],\<newline>    "languages": [\<newline>      "English",\<newline>      "Spanish"\<newline>    ]\<newline>  }\<newline>}''\<close>
  by (simp add: sampleJson_def JSON_stringify_2 wrap_def QuoteJSONString_def QuoteJSONChar_def
      toString_lat toString_age toString_lng del: Number_toString.simps)

text \<open>
  Claim C10. The mount effect, which runs before any input and calls no parser, puts the
  sample document, serialized with two spaces of indent, into the buffer and the sample
  itself into the parsed document. The state in which the editor waits for its first
  input is therefore not the neutral one: the buffer is not blank, there is a document
  and the badge is Valid.
\<close>

theorem mountEffect_prefills:
  "jsonInput (mountEffect initialState) = JSON_stringify sampleJson 2
   \<and> parsedJson (mountEffect initialState) = sampleJson
   \<and> validationError (mountEffect initialState) = []
   \<and> expandedPaths (mountEffect initialState) = {''root''}
   \<and> trim (jsonInput (mountEffect initialState)) \<noteq> []
   \<and> parsedJson (mountEffect initialState) \<noteq> JNull
   \<and> status_badge (mountEffect initialState) = Some Valid"
proof -
  have "\<not> list_all isWhiteSpace (JSON_stringify sampleJson 2)"
    by (simp add: sample_text isWhiteSpace_def)
  then have "trim (JSON_stringify sampleJson 2) \<noteq> []"
    by (simp add: trim_empty_iff)
  moreover have "truthy sampleJson" "sampleJson \<noteq> JNull"
    by (simp_all add: sampleJson_def)
  ultimately show ?thesis
    by (simp add: mountEffect_def initialState_def status_badge_def)
qed

section \<open>Containers without children in the tree view\<close>

lemma string_of_nat_0: "string_of_nat 0 = ''0''"
  by (simp add: string_of_nat.simps digit_char_def)

lemma createNode_empty:
  "v = JArray [] \<or> v = JObject [] \<Longrightarrow>
   createNode E k v p = JsonNode k v (typeOf v) p (p \<in> E) (Some [])"
  by (subst createNode.simps) auto

text \<open>
  Claim C6, as the code has it. A container node with no children has no expand button,
  whether or not its path is in the expand state (a spacer stands in its place, and a
  click on its header toggles nothing). When its path is not in the expand state, its
  header line shows the opening bracket, the count summary \<^verbatim>\<open>0 items\<close> or
  \<^verbatim>\<open>0 keys\<close>, and the closing bracket.
\<close>

theorem empty_container_rendering:
  "v = JArray [] \<or> v = JObject [] \<Longrightarrow>
   buttons (renderNode (createNode E k v p) depth) = 0
   \<and> onClick (createNode E k v p) st = st
   \<and> (p \<notin> E \<longrightarrow>
        renderNode (createNode E k v p) depth =
          Element ''div'' ''tree-item'' None
            [Element ''div'' ''flex items-center py-1 px-2 cursor-pointer'' (Some (depth * 20 + 8))
               [Element ''div'' ''w-4 mr-1'' None [],
                span ''json-key mr-2'' [Text k],
                span ''json-colon mr-2'' [Text '':''],
                span ''json-bracket''
                  [Text (if v = JArray [] then ''['' else ''{''),
                   span ''text-muted-foreground text-xs ml-1''
                     [Text ''0'', Text '' '', Text (if v = JArray [] then ''items'' else ''keys'')],
                   span ''ml-1'' [Text (if v = JArray [] then '']'' else ''}'')]]]]
        \<and> innerText (renderNode (createNode E k v p) depth)
            = k @ '':'' @ (if v = JArray [] then ''[0 items]'' else ''{0 keys}''))"
  by (auto simp: createNode_empty span_def onClick_def hasChildren_def string_of_nat_0)

theorem empty_container_rendering_witness:
  "(JObject [] = JArray [] \<or> JObject [] = JObject [])
   \<and> buttons (renderNode (createNode {''root''} ''meta'' (JObject []) ''root.meta'') 1) = 0
   \<and> ''root.meta'' \<notin> {''root''}
   \<and> innerText (renderNode (createNode {''root''} ''meta'' (JObject []) ''root.meta'') 1)
       = ''meta:{0 keys}''"
proof -
  have h: "JObject [] = JArray [] \<or> JObject [] = JObject []" by simp
  have n: "''root.meta'' \<notin> {''root''}" by simp
  note inst = empty_container_rendering
    [OF h, where E = "{''root''}" and k = "''meta''" and p = "''root.meta''" and depth = 1
       and st = initialState]
  from inst have b: "buttons (renderNode (createNode {''root''} ''meta'' (JObject []) ''root.meta'') 1) = 0"
    by (rule conjunct1)
  from inst n have "innerText (renderNode (createNode {''root''} ''meta'' (JObject []) ''root.meta'') 1)
       = ''meta'' @ '':'' @ (if JObject [] = JArray [] then ''[0 items]'' else ''{0 keys}'')"
    by blast
  then have t: "innerText (renderNode (createNode {''root''} ''meta'' (JObject []) ''root.meta'') 1)
       = ''meta:{0 keys}''"
    by simp
  from h b n t show ?thesis by (intro conjI)
qed

text \<open>
  Claim C6 as stated fails. The brackets of an empty container are not adjacent: when its
  path is not in the expand state the count summary stands between them, and when it is
  (expand-all puts it there) the closing bracket is not rendered at all.
\<close>

theorem empty_container_counterexample:
  "innerText (renderNode (createNode {''root''} ''a'' (JArray []) ''root.a'') 0) = ''a:[0 items]''
   \<and> ''root.a'' \<in> expandedPaths (expandAll (initialState\<lparr>parsedJson := JObject [(''a'', JArray [])]\<rparr>))
   \<and> innerText (renderNode (createNode {''root'', ''root.a''} ''a'' (JArray []) ''root.a'') 0) = ''a:[''"
  by (simp add: createNode_empty span_def string_of_nat_0 expandAll_def initialState_def
        getAllPaths.simps)

section \<open>Debounce\<close>





lemma validateAndParseJson_jsonInput:
  "jsonInput (validateAndParseJson P input st) = jsonInput st"
  by (simp add: validateAndParseJson_def split: sum.splits)




section \<open>Parsing what was serialized\<close>





























lemma hex_cases:
  "d < 16 \<Longrightarrow> d = 0 \<or> d = 1 \<or> d = 2 \<or> d = 3 \<or> d = 4 \<or> d = 5 \<or> d = 6 \<or> d = 7 \<or> d = 8
     \<or> d = 9 \<or> d = 10 \<or> d = 11 \<or> d = 12 \<or> d = 13 \<or> d = 14 \<or> d = (15::nat)"
  by arith

lemma hex_val_hex_char: "d < 16 \<Longrightarrow> hex_val (hex_char d) = Some d"
  by (drule hex_cases) (auto simp: hex_val_def hex_char_def)

lemma hex4_control:
  assumes "(of_char c :: nat) < 0x20"
  shows "hex4 [CHR ''0'', CHR ''0'', hex_char (of_char c div 16), hex_char (of_char c mod 16)]
         = Some (of_char c)"
proof -
  have "hex_val (CHR ''0'') = Some 0" by (simp add: hex_val_def)
  moreover from assms have "hex_val (hex_char (of_char c div 16)) = Some (of_char c div 16)"
    by (intro hex_val_hex_char) simp
  moreover have "hex_val (hex_char (of_char c mod 16)) = Some (of_char c mod 16)"
    by (intro hex_val_hex_char) simp
  ultimately show ?thesis by (simp add: hex4_def)
qed

lemma string_chars_quote:
  "string_chars (QuoteJSONChar c @ cs) = map_option (\<lambda>(s, r). (c # s, r)) (string_chars cs)"
proof -
  consider (b) "c = CHR 0x08" | (t) "c = CHR 0x09" | (n) "c = CHR 0x0A" | (f) "c = CHR 0x0C"
    | (r) "c = CHR 0x0D" | (q) "c = CHR 0x22" | (bs) "c = CHR 0x5C"
    | (ctl) "c \<noteq> CHR 0x08" "c \<noteq> CHR 0x09" "c \<noteq> CHR 0x0A" "c \<noteq> CHR 0x0C" "c \<noteq> CHR 0x0D"
        "c \<noteq> CHR 0x22" "c \<noteq> CHR 0x5C" "(of_char c :: nat) < 0x20"
    | (plain) "c \<noteq> CHR 0x22" "c \<noteq> CHR 0x5C" "\<not> (of_char c :: nat) < 0x20"
    by blast
  then show ?thesis
  proof cases
    case ctl
    have lt: "(of_char c :: nat) < 256" using ctl(8) by simp
    from ctl have q: "QuoteJSONChar c = [CHR 0x5C, CHR ''u'', CHR ''0'', CHR ''0'',
        hex_char (of_char c div 16), hex_char (of_char c mod 16)]"
      by (simp add: QuoteJSONChar_def)
    show ?thesis
      by (simp add: q hex4_control [OF ctl(8)] lt)
  next
    case plain
    then have "QuoteJSONChar c = [c]" by (auto simp: QuoteJSONChar_def)
    with plain show ?thesis by simp
  qed (simp_all add: QuoteJSONChar_def unescape_def)
qed

lemma string_chars_quoted:
  "string_chars (concat (map QuoteJSONChar s) @ CHR 0x22 # rest) = Some (s, rest)"
  by (induction s) (simp_all add: string_chars_quote del: string_chars.simps, simp)

lemma QuoteJSONString_parse:
  "\<exists>t. QuoteJSONString s @ rest = CHR 0x22 # t \<and> string_chars t = Some (s, rest)"
  by (simp add: QuoteJSONString_def string_chars_quoted)


























































end
